theory Spec2Isabelle
  imports Complex_Main "HOL-Library.AList"
begin

section \<open>Values and failures\<close>

text \<open>
  A JavaScript string is modelled as a \<^typ>\<open>string\<close>: a list of code units, restricted to the
  code units below 256 that a \<^typ>\<open>char\<close> holds.

  The values that the engine's \<open>JSON.parse\<close> returns. An object is the list of its own
  properties, with distinct names; a number is given by its value (the infinities, which the
  engine returns for a literal beyond the range of a double, are left out: like every number
  they are primitives).
\<close>

datatype json =
    JNull
  | JBool bool
  | JNumber real
  | JString string
  | JArray "json list"
  | JObject "(string \<times> json) list"

text \<open>
  One constructor for each \<open>throw new Error(...)\<close> of \<open>reqlineParser.js\<close>; \<open>Syntax_error m\<close> is
  the engine's own \<open>SyntaxError\<close> with message \<open>m\<close>, which \<open>parseJsonSection\<close> may rethrow.
\<close>

datatype error =
    Empty_statement
  | Invalid_pipe_spacing
  | Missing_sections
  | Empty_segment
  | Missing_space
  | Keywords_uppercase
  | Invalid_keyword string
  | Multiple_spaces
  | Method_uppercase
  | Invalid_method
  | URL_empty
  | URL_scheme
  | Duplicate_keyword string
  | HTTP_first
  | URL_second
  | Missing_keyword string
  | Invalid_JSON string
  | Syntax_error string

text \<open>The \<open>message\<close> property of each error, as the source writes it.\<close>

fun message :: "error \<Rightarrow> string" where
  "message Empty_statement = ''Reqline statement cannot be empty''"
| "message Invalid_pipe_spacing = ''Invalid spacing around pipe delimiter''"
| "message Missing_sections = ''Missing required HTTP and URL sections''"
| "message Empty_segment = ''Empty segment found''"
| "message Missing_space = ''Missing space after keyword''"
| "message Keywords_uppercase = ''Keywords must be uppercase''"
| "message (Invalid_keyword keyword) = ''Invalid keyword: '' @ keyword"
| "message Multiple_spaces = ''Multiple spaces found where single space expected''"
| "message Method_uppercase = ''HTTP method must be uppercase''"
| "message Invalid_method = ''Invalid HTTP method. Only GET and POST are supported''"
| "message URL_empty = ''URL cannot be empty''"
| "message URL_scheme = ''URL must start with http:// or https://''"
| "message (Duplicate_keyword keyword) = ''Duplicate keyword: '' @ keyword"
| "message HTTP_first = ''HTTP keyword must be first''"
| "message URL_second = ''URL keyword must be second''"
| "message (Missing_keyword keyword) = ''Missing required '' @ keyword @ '' keyword''"
| "message (Invalid_JSON sectionName) = ''Invalid JSON format in '' @ sectionName @ '' section''"
| "message (Syntax_error m) = m"

section \<open>String primitives of the language\<close>

text \<open>
  \<open>String.prototype.trim\<close> removes white space and line terminators at both ends. Below 256
  these are TAB, LF, VT, FF, CR, SPACE and NBSP.
\<close>

definition is_ws :: "char \<Rightarrow> bool" where
  "is_ws c =
     (let n = (of_char c :: nat)
      in n = 9 \<or> n = 10 \<or> n = 11 \<or> n = 12 \<or> n = 13 \<or> n = 32 \<or> n = 160)"

definition trim :: "string \<Rightarrow> string" where
  "trim s = rev (dropWhile is_ws (rev (dropWhile is_ws s)))"

definition startsWith :: "string \<Rightarrow> string \<Rightarrow> bool" where
  "startsWith s p = (take (length p) s = p)"

fun str_includes :: "string \<Rightarrow> string \<Rightarrow> bool" where
  "str_includes [] p = (p = [])"
| "str_includes (c # cs) p = (startsWith (c # cs) p \<or> str_includes cs p)"

text \<open>
  \<open>toLowerCase\<close>: A..Z and the Latin-1 capitals (192..222 but the multiplication sign 215) move
  up by 32; every other code unit below 256 is unchanged.
\<close>

definition lower_char :: "char \<Rightarrow> char" where
  "lower_char c =
     (let n = (of_char c :: nat)
      in if (65 \<le> n \<and> n \<le> 90) \<or> (192 \<le> n \<and> n \<le> 222 \<and> n \<noteq> 215) then char_of (n + 32) else c)"

definition toLowerCase :: "string \<Rightarrow> string" where
  "toLowerCase s = map lower_char s"

text \<open>
  \<open>toUpperCase\<close>: a..z and the Latin-1 small letters (224..254 but the division sign 247) move
  down by 32, and the sharp s (223) becomes \<open>SS\<close>. The capitals of the micro sign (181) and of
  y with diaeresis (255) lie above 255; both are left in place here, which, like their true
  capitals, are no ASCII letters.
\<close>

definition upper_char :: "char \<Rightarrow> string" where
  "upper_char c =
     (let n = (of_char c :: nat)
      in if (97 \<le> n \<and> n \<le> 122) \<or> (224 \<le> n \<and> n \<le> 254 \<and> n \<noteq> 247) then [char_of (n - 32)]
         else if n = 223 then ''SS''
         else [c])"

definition toUpperCase :: "string \<Rightarrow> string" where
  "toUpperCase s = concat (map upper_char s)"

section \<open>The parser (reqlineParser.js)\<close>

definition VALID_METHODS :: "string list" where
  "VALID_METHODS = [''GET'', ''POST'']"

definition REQUIRED_KEYWORDS :: "string list" where
  "REQUIRED_KEYWORDS = [''HTTP'', ''URL'']"

definition OPTIONAL_KEYWORDS :: "string list" where
  "OPTIONAL_KEYWORDS = [''HEADERS'', ''QUERY'', ''BODY'']"

definition ALL_KEYWORDS :: "string list" where
  "ALL_KEYWORDS = REQUIRED_KEYWORDS @ OPTIONAL_KEYWORDS"

subsection \<open>splitByPipe\<close>

text \<open>
  The \<open>while\<close> loop of \<open>splitByPipe\<close>, on the index \<open>i\<close>, the text \<open>current\<close> and the
  \<open>segments\<close> pushed so far. It returns the two at the end of the scan.
\<close>

function splitByPipe_loop ::
  "string \<Rightarrow> nat \<Rightarrow> string \<Rightarrow> string list \<Rightarrow> error + (string \<times> string list)" where
  "splitByPipe_loop reqline i current segments =
     (if i < length reqline then
        (if reqline ! i = CHR ''|'' then
           (if i = 0 \<or> reqline ! (i - 1) \<noteq> CHR '' '' then Inl Invalid_pipe_spacing
            else if i = length reqline - 1 \<or> reqline ! (i + 1) \<noteq> CHR '' '' then
              Inl Invalid_pipe_spacing
            else splitByPipe_loop reqline (i + 2) [] (segments @ [trim current]))
         else splitByPipe_loop reqline (i + 1) (current @ [reqline ! i]) segments)
      else Inr (current, segments))"
  by pat_completeness auto
termination
  by (relation "measure (\<lambda>(reqline, i, current, segments). length reqline - i)") auto

declare splitByPipe_loop.simps [simp del]

definition splitByPipe :: "string \<Rightarrow> error + string list" where
  "splitByPipe reqline =
     (case splitByPipe_loop reqline 0 [] [] of
        Inl e \<Rightarrow> Inl e
      | Inr (current, segments) \<Rightarrow>
          (let segments' = (if trim current \<noteq> [] then segments @ [trim current] else segments)
           in if length segments' < 2 then Inl Missing_sections else Inr segments'))"

subsection \<open>parseSegment\<close>

text \<open>The \<open>for\<close> loop that finds the first space: \<open>None\<close> is the source's \<open>-1\<close>.\<close>

fun firstSpace :: "string \<Rightarrow> nat option" where
  "firstSpace [] = None"
| "firstSpace (c # cs) = (if c = CHR '' '' then Some 0 else map_option Suc (firstSpace cs))"

definition parseSegment :: "string \<Rightarrow> nat \<Rightarrow> error + (string \<times> string)" where
  "parseSegment segment index =
     (let trimmed = trim segment
      in if trimmed = [] then Inl Empty_segment
         else case firstSpace trimmed of
           None \<Rightarrow> Inl Missing_space
         | Some spaceIndex \<Rightarrow>
             (let keyword = take spaceIndex trimmed;
                  value = drop (spaceIndex + 1) trimmed
              in if keyword \<notin> set ALL_KEYWORDS then
                   (if toLowerCase keyword = ''http'' \<or> toLowerCase keyword = ''url'' \<or>
                       toLowerCase keyword = ''headers'' \<or> toLowerCase keyword = ''query'' \<or>
                       toLowerCase keyword = ''body''
                    then Inl Keywords_uppercase
                    else Inl (Invalid_keyword keyword))
                 else if startsWith value '' '' then Inl Multiple_spaces
                 else if keyword = ''HTTP'' \<and> value \<notin> set VALID_METHODS then
                   (if toUpperCase value = ''GET'' \<or> toUpperCase value = ''POST''
                    then Inl Method_uppercase
                    else Inl Invalid_method)
                 else if keyword = ''URL'' \<and> trim value = [] then Inl URL_empty
                 else if keyword = ''URL'' \<and> \<not> startsWith value ''http://'' \<and>
                         \<not> startsWith value ''https://''
                 then Inl URL_scheme
                 else Inr (keyword, trim value)))"

subsection \<open>validateRequiredKeywords, validateKeywordOrder\<close>

text \<open>
  \<open>parsedSegments\<close> is an object from keywords to value texts. A property read is truthy when the
  property is there and its text is not empty.
\<close>

definition truthy_text :: "string option \<Rightarrow> bool" where
  "truthy_text p = (case p of None \<Rightarrow> False | Some v \<Rightarrow> v \<noteq> [])"

fun validateRequiredKeywords_loop :: "string list \<Rightarrow> (string \<rightharpoonup> string) \<Rightarrow> error + unit" where
  "validateRequiredKeywords_loop [] parsedSegments = Inr ()"
| "validateRequiredKeywords_loop (keyword # keywords) parsedSegments =
     (if \<not> truthy_text (parsedSegments keyword) then Inl (Missing_keyword keyword)
      else validateRequiredKeywords_loop keywords parsedSegments)"

definition validateRequiredKeywords :: "(string \<rightharpoonup> string) \<Rightarrow> error + unit" where
  "validateRequiredKeywords parsedSegments =
     validateRequiredKeywords_loop REQUIRED_KEYWORDS parsedSegments"

text \<open>\<open>s.split(' ')[0]\<close>: the text before the first space, all of \<open>s\<close> when it has none.\<close>

definition firstWord :: "string \<Rightarrow> string" where
  "firstWord s = takeWhile (\<lambda>c. c \<noteq> CHR '' '') s"

definition validateKeywordOrder :: "string list \<Rightarrow> error + unit" where
  "validateKeywordOrder segments =
     (if length segments < 2 then Inl Missing_sections
      else
        (let firstKeyword = firstWord (segments ! 0);
             secondKeyword = firstWord (segments ! 1)
         in if firstKeyword \<noteq> ''HTTP'' then Inl HTTP_first
            else if secondKeyword \<noteq> ''URL'' then
              (if secondKeyword \<notin> set ALL_KEYWORDS then Inl URL_second
               else Inl (Missing_keyword ''URL''))
            else Inr ()))"

subsection \<open>parseJsonSection\<close>

text \<open>
  \<open>JSON.parse\<close> belongs to the engine, not to the repository: it is the parameter \<open>JSON_parse\<close>,
  which returns the decoded value or \<open>Inl m\<close> when it throws a \<open>SyntaxError\<close> with message \<open>m\<close>.

  The \<open>catch\<close> block rethrows an error whose message includes \<open>JSON format\<close> and replaces any
  other by the error of the section.
\<close>

definition catch_json :: "string \<Rightarrow> error \<Rightarrow> error" where
  "catch_json sectionName e =
     (if str_includes (message e) ''JSON format'' then e else Invalid_JSON sectionName)"

text \<open>The operator \<open>typeof\<close> and \<open>Array.isArray\<close> on a decoded value.\<close>

fun typeof :: "json \<Rightarrow> string" where
  "typeof JNull = ''object''"
| "typeof (JBool b) = ''boolean''"
| "typeof (JNumber x) = ''number''"
| "typeof (JString s) = ''string''"
| "typeof (JArray xs) = ''object''"
| "typeof (JObject properties) = ''object''"

fun isArray :: "json \<Rightarrow> bool" where
  "isArray (JArray xs) = True"
| "isArray v = False"

definition parseJsonSection :: "(string \<Rightarrow> string + json) \<Rightarrow> string \<Rightarrow> string \<Rightarrow> error + json" where
  "parseJsonSection JSON_parse jsonString sectionName =
     (case JSON_parse jsonString of
        Inl m \<Rightarrow> Inl (catch_json sectionName (Syntax_error m))
      | Inr parsed \<Rightarrow>
          (if typeof parsed \<noteq> ''object'' \<or> parsed = JNull \<or> isArray parsed
           then Inl (catch_json sectionName (Invalid_JSON sectionName))
           else Inr parsed))"

subsection \<open>parseReqline\<close>

text \<open>
  The object that \<open>parseReqline\<close> returns. Its field \<open>method\<close> is \<open>request_method\<close> here.
  \<open>parsedSegments.HTTP\<close> and \<open>parsedSegments.URL\<close> are property reads, \<open>None\<close> when the
  property is \<open>undefined\<close>.
\<close>

record parsed_request =
  request_method :: "string option"
  url :: "string option"
  headers :: json
  query :: json
  body :: json

text \<open>The \<open>for\<close> loop of \<open>parseReqline\<close> over the segments, from index \<open>i\<close>.\<close>

fun parseReqline_loop ::
  "string list \<Rightarrow> nat \<Rightarrow> (string \<rightharpoonup> string) \<Rightarrow> error + (string \<rightharpoonup> string)" where
  "parseReqline_loop [] i parsedSegments = Inr parsedSegments"
| "parseReqline_loop (segment # segments) i parsedSegments =
     (case parseSegment segment i of
        Inl e \<Rightarrow> Inl e
      | Inr (keyword, value) \<Rightarrow>
          (if truthy_text (parsedSegments keyword) then Inl (Duplicate_keyword keyword)
           else parseReqline_loop segments (i + 1) (parsedSegments(keyword \<mapsto> value))))"

text \<open>An optional section: the empty object unless the property is truthy.\<close>

definition optional_section ::
  "(string \<Rightarrow> string + json) \<Rightarrow> (string \<rightharpoonup> string) \<Rightarrow> string \<Rightarrow> error + json" where
  "optional_section JSON_parse parsedSegments sectionName =
     (case parsedSegments sectionName of
        None \<Rightarrow> Inr (JObject [])
      | Some v \<Rightarrow> (if v \<noteq> [] then parseJsonSection JSON_parse v sectionName else Inr (JObject [])))"

definition parseReqline :: "(string \<Rightarrow> string + json) \<Rightarrow> string \<Rightarrow> error + parsed_request" where
  "parseReqline JSON_parse reqline =
     (if trim reqline = [] then Inl Empty_statement
      else case splitByPipe reqline of
        Inl e \<Rightarrow> Inl e
      | Inr segments \<Rightarrow>
      (case parseReqline_loop segments 0 Map.empty of
        Inl e \<Rightarrow> Inl e
      | Inr parsedSegments \<Rightarrow>
      (case validateKeywordOrder segments of
        Inl e \<Rightarrow> Inl e
      | Inr _ \<Rightarrow>
      (case validateRequiredKeywords parsedSegments of
        Inl e \<Rightarrow> Inl e
      | Inr _ \<Rightarrow>
      (case optional_section JSON_parse parsedSegments ''HEADERS'' of
        Inl e \<Rightarrow> Inl e
      | Inr h \<Rightarrow>
      (case optional_section JSON_parse parsedSegments ''QUERY'' of
        Inl e \<Rightarrow> Inl e
      | Inr q \<Rightarrow>
      (case optional_section JSON_parse parsedSegments ''BODY'' of
        Inl e \<Rightarrow> Inl e
      | Inr b \<Rightarrow>
          Inr \<lparr>request_method = parsedSegments ''HTTP'', url = parsedSegments ''URL'',
               headers = h, query = q, body = b\<rparr>)))))))"

text \<open>The guard \<open>typeof reqline !== 'string'\<close>: \<open>None\<close> is an argument that is not a string.\<close>

definition parseReqline_arg ::
  "(string \<Rightarrow> string + json) \<Rightarrow> string option \<Rightarrow> error + parsed_request" where
  "parseReqline_arg JSON_parse arg =
     (case arg of None \<Rightarrow> Inl Empty_statement | Some reqline \<Rightarrow> parseReqline JSON_parse reqline)"

section \<open>The request service (requestService.js)\<close>

text \<open>
  \<open>executeRequest\<close> receives the result of \<open>parseReqline\<close>, whose \<open>headers\<close>, \<open>query\<close> and
  \<open>body\<close> are objects: each is given here by the list of its properties, with distinct names.
  A property read is \<open>map_of\<close>, where \<open>None\<close> is \<open>undefined\<close>.
\<close>





section \<open>Notions used to state the properties\<close>

text \<open>
  An engine for the closed examples. It decodes the three texts below as \<open>JSON.parse\<close> does and
  reports a syntax error on every other text; the examples decode no other text.
\<close>

definition JSON_parse_sample :: "string \<Rightarrow> string + json" where
  "JSON_parse_sample text =
     (if text = ''{\"k\":1}'' then Inr (JObject [(''k'', JNumber 1)])
      else if text = ''{}'' then Inr (JObject [])
      else if text = ''[]'' then Inr (JArray [])
      else Inl ''Unexpected token'')"

text \<open>A text is trimmed when \<open>trim\<close> has nothing to remove from it.\<close>

definition trimmed :: "string \<Rightarrow> bool" where
  "trimmed s = (s = [] \<or> (\<not> is_ws (hd s) \<and> \<not> is_ws (last s)))"

text \<open>Classification succeeds on a segment.\<close>

definition classifiable :: "string \<Rightarrow> bool" where
  "classifiable segment = (case parseSegment segment 0 of Inl e \<Rightarrow> False | Inr kv \<Rightarrow> True)"

text \<open>A JSON value is an object: not null, not an array, not a primitive.\<close>

fun is_object :: "json \<Rightarrow> bool" where
  "is_object (JObject properties) = True"
| "is_object v = False"

text \<open>
  Decoding a section's text fails to give an object: the engine throws, or returns an array,
  a primitive or null.
\<close>

definition bad_json :: "(string \<Rightarrow> string + json) \<Rightarrow> string \<Rightarrow> bool" where
  "bad_json JSON_parse text = (case JSON_parse text of Inl m \<Rightarrow> True | Inr v \<Rightarrow> \<not> is_object v)"


text \<open>A section is omitted from a statement: no segment of the statement starts with its keyword.\<close>

definition section_omitted :: "string \<Rightarrow> string \<Rightarrow> bool" where
  "section_omitted sectionName reqline =
     (case splitByPipe reqline of
        Inl e \<Rightarrow> True
      | Inr segments \<Rightarrow> sectionName \<notin> set (map firstWord segments))"

text \<open>The last part of \<open>parseReqline\<close>, from the optional sections on.\<close>

definition sections ::
  "(string \<Rightarrow> string + json) \<Rightarrow> (string \<rightharpoonup> string) \<Rightarrow> error + parsed_request" where
  "sections JSON_parse ps =
     (case optional_section JSON_parse ps ''HEADERS'' of
        Inl e \<Rightarrow> Inl e
      | Inr h \<Rightarrow>
      (case optional_section JSON_parse ps ''QUERY'' of
        Inl e \<Rightarrow> Inl e
      | Inr q \<Rightarrow>
      (case optional_section JSON_parse ps ''BODY'' of
        Inl e \<Rightarrow> Inl e
      | Inr b \<Rightarrow>
          Inr \<lparr>request_method = ps ''HTTP'', url = ps ''URL'', headers = h, query = q, body = b\<rparr>)))"

section \<open>Facts about trimming\<close>

lemma hd_dropWhile_not: "dropWhile P xs \<noteq> [] \<Longrightarrow> \<not> P (hd (dropWhile P xs))"
  by (simp add: hd_dropWhile)

lemma trimmed_trim: "trimmed (trim s)"
proof (cases "trim s = []")
  case True
  then show ?thesis by (simp add: trimmed_def)
next
  case False
  define u where "u = dropWhile is_ws s"
  define w where "w = dropWhile is_ws (rev u)"
  have t: "trim s = rev w" by (simp add: trim_def u_def w_def)
  with False have w: "w \<noteq> []" by simp
  then have u: "u \<noteq> []" by (auto simp: w_def)
  have "\<not> is_ws (hd w)" using w unfolding w_def by (rule hd_dropWhile_not)
  then have l: "\<not> is_ws (last (trim s))" using w by (simp add: t last_rev)
  have "rev u = takeWhile is_ws (rev u) @ w" by (simp add: w_def)
  then have "last (rev u) = last w" using w by (metis last_appendR)
  then have "last w = hd u" using u by (simp add: last_rev)
  moreover have "\<not> is_ws (hd u)" using u unfolding u_def by (rule hd_dropWhile_not)
  ultimately have "\<not> is_ws (hd (trim s))" using w by (simp add: t hd_rev)
  with l show ?thesis by (simp add: trimmed_def)
qed

lemma trim_trimmed: "trimmed s \<Longrightarrow> trim s = s"
proof (cases "s = []")
  case True
  then show ?thesis by (simp add: trim_def)
next
  case False
  assume "trimmed s"
  with False have h: "\<not> is_ws (hd s)" and l: "\<not> is_ws (last s)" by (auto simp: trimmed_def)
  from h False have a: "dropWhile is_ws s = s" by (simp add: dropWhile_eq_self_iff)
  from l False have "\<not> is_ws (hd (rev s))" by (simp add: hd_rev)
  then have "dropWhile is_ws (rev s) = rev s" by (simp add: dropWhile_eq_self_iff)
  with a show ?thesis by (simp add: trim_def)
qed

lemma trim_idem: "trim (trim s) = trim s"
  by (rule trim_trimmed) (rule trimmed_trim)

lemma is_ws_space: "is_ws CHR '' ''"
  by (simp add: is_ws_def)

lemma is_ws_not_pipe: "is_ws c \<Longrightarrow> c \<noteq> CHR ''|''"
  by (auto simp: is_ws_def)

lemma trim_Nil_iff: "trim s = [] \<longleftrightarrow> (\<forall>c\<in>set s. is_ws c)"
proof
  assume "trim s = []"
  then have a: "\<forall>c\<in>set (dropWhile is_ws s). is_ws c"
    by (simp add: trim_def dropWhile_eq_Nil_conv)
  have "dropWhile is_ws s = []"
  proof (rule ccontr)
    assume n: "dropWhile is_ws s \<noteq> []"
    then have "\<not> is_ws (hd (dropWhile is_ws s))" by (rule hd_dropWhile_not)
    moreover have "hd (dropWhile is_ws s) \<in> set (dropWhile is_ws s)" using n by simp
    ultimately show False using a by blast
  qed
  then show "\<forall>c\<in>set s. is_ws c" by (simp add: dropWhile_eq_Nil_conv)
next
  assume "\<forall>c\<in>set s. is_ws c"
  then show "trim s = []" by (auto simp: trim_def dest: set_dropWhileD)
qed

lemma firstSpace_Some:
  "firstSpace s = Some k \<Longrightarrow> k < length s \<and> s ! k = CHR '' '' \<and> CHR '' '' \<notin> set (take k s)"
proof (induction s arbitrary: k)
  case Nil
  then show ?case by simp
next
  case (Cons c cs)
  show ?case
  proof (cases "c = CHR '' ''")
    case True
    with Cons.prems show ?thesis by simp
  next
    case False
    with Cons.prems obtain j where j: "firstSpace cs = Some j" and k: "k = Suc j" by auto
    from Cons.IH [OF j] False k show ?thesis by simp
  qed
qed

lemma firstSpace_None: "firstSpace s = None \<longleftrightarrow> CHR '' '' \<notin> set s"
  by (induction s) auto

lemma firstWord_take: "firstSpace s = Some k \<Longrightarrow> firstWord s = take k s"
proof (induction s arbitrary: k)
  case Nil
  then show ?case by simp
next
  case (Cons c cs)
  show ?case
  proof (cases "c = CHR '' ''")
    case True
    with Cons.prems show ?thesis by (simp add: firstWord_def)
  next
    case False
    with Cons.prems obtain j where j: "firstSpace cs = Some j" and k: "k = Suc j" by auto
    from Cons.IH [OF j] False k show ?thesis by (simp add: firstWord_def)
  qed
qed

lemma value_not_blank:
  assumes t: "trimmed t" and ne: "t \<noteq> []" and fs: "firstSpace t = Some k"
  shows "trim (drop (k + 1) t) \<noteq> []"
proof -
  from firstSpace_Some [OF fs] have k: "k < length t" and sp: "t ! k = CHR '' ''" by auto
  from t ne have l: "\<not> is_ws (last t)" by (simp add: trimmed_def)
  have "k \<noteq> length t - 1"
  proof
    assume "k = length t - 1"
    with sp ne have "last t = CHR '' ''" by (simp add: last_conv_nth)
    with l show False by (simp add: is_ws_space)
  qed
  with k have d: "drop (k + 1) t \<noteq> []" by simp
  then have "last (drop (k + 1) t) = last t" by simp
  moreover have "last (drop (k + 1) t) \<in> set (drop (k + 1) t)" using d by (rule last_in_set)
  ultimately have "\<exists>c\<in>set (drop (k + 1) t). \<not> is_ws c" using l by metis
  then show ?thesis by (simp add: trim_Nil_iff)
qed

section \<open>Facts about classification\<close>

lemma set_ALL_KEYWORDS:
  "set ALL_KEYWORDS = {''HTTP'', ''URL'', ''HEADERS'', ''QUERY'', ''BODY''}"
  by (auto simp: ALL_KEYWORDS_def REQUIRED_KEYWORDS_def OPTIONAL_KEYWORDS_def)

lemma parseSegment_index: "parseSegment segment i = parseSegment segment j"
  by (simp add: parseSegment_def)

lemma parseSegment_Inr:
  assumes "parseSegment segment i = Inr (keyword, value)"
  shows "keyword \<in> set ALL_KEYWORDS \<and> keyword = firstWord (trim segment) \<and> value \<noteq> []"
proof -
  let ?t = "trim segment"
  from assms have ne: "?t \<noteq> []"
    by (auto simp: parseSegment_def Let_def split: if_splits)
  from assms ne obtain j where j: "firstSpace ?t = Some j"
    by (cases "firstSpace ?t") (auto simp: parseSegment_def Let_def)
  from assms ne j have k: "keyword = take j ?t" and v: "value = trim (drop (j + 1) ?t)"
    and a: "keyword \<in> set ALL_KEYWORDS"
    by (auto simp: parseSegment_def Let_def split: if_splits)
  from value_not_blank [OF trimmed_trim ne j] v have "value \<noteq> []" by simp
  with k a firstWord_take [OF j] show ?thesis by simp
qed

lemma parseSegment_Inl:
  assumes "parseSegment segment i = Inl e"
  shows "e \<in> {Empty_segment, Missing_space, Keywords_uppercase, Multiple_spaces,
               Method_uppercase, Invalid_method, URL_scheme}
         \<or> (e = Invalid_keyword (firstWord (trim segment)) \<and> firstWord (trim segment) \<notin> set ALL_KEYWORDS)"
proof (cases "trim segment = []")
  case True
  with assms show ?thesis by (simp add: parseSegment_def)
next
  case ne: False
  show ?thesis
  proof (cases "firstSpace (trim segment)")
    case None
    with assms ne show ?thesis by (simp add: parseSegment_def)
  next
    case (Some j)
    from value_not_blank [OF trimmed_trim ne Some]
    have nb: "trim (drop (Suc j) (trim segment)) \<noteq> []" by simp
    from firstWord_take [OF Some] have fw: "firstWord (trim segment) = take j (trim segment)" .
    from assms ne Some nb show ?thesis
      unfolding fw by (auto simp: parseSegment_def Let_def split: if_splits)
  qed
qed

lemma parseReqline_loop_Inl:
  "parseReqline_loop segments i ps = Inl e \<Longrightarrow>
     (\<exists>segment\<in>set segments. parseSegment segment 0 = Inl e) \<or>
     (\<exists>keyword\<in>set ALL_KEYWORDS. e = Duplicate_keyword keyword)"
proof (induction segments arbitrary: i ps)
  case Nil
  then show ?case by simp
next
  case (Cons segment segments)
  show ?case
  proof (cases "parseSegment segment i")
    case (Inl e')
    with Cons.prems have "e' = e" by simp
    with Inl parseSegment_index [of segment 0 i] show ?thesis by simp
  next
    case (Inr kv)
    obtain keyword v where kv: "kv = (keyword, v)" by (cases kv)
    from Inr kv parseSegment_Inr have k: "keyword \<in> set ALL_KEYWORDS" by blast
    show ?thesis
    proof (cases "truthy_text (ps keyword)")
      case True
      with Cons.prems Inr kv k show ?thesis by auto
    next
      case False
      with Cons.prems Inr kv
      have "parseReqline_loop segments (i + 1) (ps(keyword \<mapsto> v)) = Inl e" by simp
      from Cons.IH [OF this] show ?thesis by auto
    qed
  qed
qed

lemma parseReqline_loop_Inr:
  "parseReqline_loop segments i ps = Inr ps' \<Longrightarrow>
     (\<forall>segment\<in>set segments. classifiable segment) \<and>
     dom ps' = dom ps \<union> (\<lambda>segment. firstWord (trim segment)) ` set segments \<and>
     (\<forall>keyword. keyword \<notin> (\<lambda>segment. firstWord (trim segment)) ` set segments \<longrightarrow>
                 ps' keyword = ps keyword) \<and>
     ((\<forall>keyword. ps keyword \<noteq> Some []) \<longrightarrow> (\<forall>keyword. ps' keyword \<noteq> Some []))"
proof (induction segments arbitrary: i ps)
  case Nil
  then show ?case by simp
next
  case (Cons segment segments)
  from Cons.prems obtain keyword v where kv: "parseSegment segment i = Inr (keyword, v)"
    by (cases "parseSegment segment i") auto
  from kv parseSegment_index [of segment 0 i] have c: "classifiable segment"
    by (simp add: classifiable_def)
  from parseSegment_Inr [OF kv] have k: "keyword = firstWord (trim segment)" and v: "v \<noteq> []"
    by auto
  from Cons.prems kv
  have rec: "parseReqline_loop segments (i + 1) (ps(keyword \<mapsto> v)) = Inr ps'"
    by (simp split: if_splits)
  note ih = Cons.IH [OF rec]
  let ?kw = "\<lambda>s. firstWord (trim s)"
  from ih c have 1: "\<forall>s\<in>set (segment # segments). classifiable s" by simp
  from ih have "dom ps' = dom (ps(keyword \<mapsto> v)) \<union> ?kw ` set segments" by blast
  then have 2: "dom ps' = dom ps \<union> ?kw ` set (segment # segments)"
    by (simp add: k)
  have 3: "\<forall>kw. kw \<notin> ?kw ` set (segment # segments) \<longrightarrow> ps' kw = ps kw"
  proof (intro allI impI)
    fix kw
    assume a: "kw \<notin> ?kw ` set (segment # segments)"
    then have "kw \<notin> ?kw ` set segments" and "kw \<noteq> keyword" by (auto simp: k)
    with ih have "ps' kw = (ps(keyword \<mapsto> v)) kw" by blast
    with \<open>kw \<noteq> keyword\<close> show "ps' kw = ps kw" by simp
  qed
  have 4: "(\<forall>kw. ps kw \<noteq> Some []) \<longrightarrow> (\<forall>kw. ps' kw \<noteq> Some [])"
  proof
    assume "\<forall>kw. ps kw \<noteq> Some []"
    with v have "\<forall>kw. (ps(keyword \<mapsto> v)) kw \<noteq> Some []" by simp
    with ih show "\<forall>kw. ps' kw \<noteq> Some []" by blast
  qed
  from 1 2 3 4 show ?case by blast
qed

lemma parseReqline_loop_succeeds:
  assumes "\<forall>segment\<in>set segments. classifiable segment"
    and "distinct (map (\<lambda>segment. firstWord (trim segment)) segments)"
    and "\<forall>segment\<in>set segments. ps (firstWord (trim segment)) = None"
  shows "\<exists>ps'. parseReqline_loop segments i ps = Inr ps'"
  using assms
proof (induction segments arbitrary: i ps)
  case Nil
  then show ?case by simp
next
  case (Cons segment segments)
  from Cons.prems(1) obtain keyword v where kv0: "parseSegment segment 0 = Inr (keyword, v)"
    by (cases "parseSegment segment 0") (auto simp: classifiable_def)
  with parseSegment_index [of segment i 0] have kv: "parseSegment segment i = Inr (keyword, v)"
    by simp
  from parseSegment_Inr [OF kv] have k: "keyword = firstWord (trim segment)" by simp
  with Cons.prems(3) have n: "\<not> truthy_text (ps keyword)" by (simp add: truthy_text_def)
  have "\<forall>s\<in>set segments. (ps(keyword \<mapsto> v)) (firstWord (trim s)) = None"
  proof
    fix s
    assume s: "s \<in> set segments"
    with Cons.prems(2) have "firstWord (trim s) \<noteq> keyword" by (auto simp: k image_iff)
    with Cons.prems(3) s show "(ps(keyword \<mapsto> v)) (firstWord (trim s)) = None" by simp
  qed
  with Cons.prems(1,2)
  have "\<exists>ps'. parseReqline_loop segments (i + 1) (ps(keyword \<mapsto> v)) = Inr ps'"
    by (intro Cons.IH) auto
  with kv n show ?case by simp
qed

section \<open>Facts about the scan and the stages of the parser\<close>

lemma splitByPipe_loop_Inl:
  "splitByPipe_loop reqline i current segments = Inl e \<Longrightarrow> e = Invalid_pipe_spacing"
proof (induction reqline i current segments rule: splitByPipe_loop.induct)
  case (1 reqline i current segments)
  from "1.prems" show ?case
    by (subst (asm) splitByPipe_loop.simps) (auto split: if_splits intro: "1.IH")
qed

lemma splitByPipe_loop_trimmed:
  "splitByPipe_loop reqline i current segments = Inr (current', segments') \<Longrightarrow>
     \<forall>s\<in>set segments. trimmed s \<Longrightarrow> \<forall>s\<in>set segments'. trimmed s"
proof (induction reqline i current segments rule: splitByPipe_loop.induct)
  case (1 reqline i current segments)
  show ?case
  proof (cases "i < length reqline")
    case False
    with "1.prems" show ?thesis by (subst (asm) splitByPipe_loop.simps) simp
  next
    case True
    show ?thesis
    proof (cases "reqline ! i = CHR ''|''")
      case False
      with True "1.prems"(1)
      have "splitByPipe_loop reqline (i + 1) (current @ [reqline ! i]) segments =
              Inr (current', segments')"
        by (subst (asm) splitByPipe_loop.simps) simp
      from "1.IH"(2) [OF True False this "1.prems"(2)] show ?thesis .
    next
      case pipe: True
      from True pipe "1.prems"(1)
      have a: "\<not> (i = 0 \<or> reqline ! (i - 1) \<noteq> CHR '' '')"
        and b: "\<not> (i = length reqline - 1 \<or> reqline ! (i + 1) \<noteq> CHR '' '')"
        and r: "splitByPipe_loop reqline (i + 2) [] (segments @ [trim current]) =
              Inr (current', segments')"
        by (subst (asm) splitByPipe_loop.simps, simp split: if_splits)+
      from "1.prems"(2) have "\<forall>s\<in>set (segments @ [trim current]). trimmed s"
        by (simp add: trimmed_trim)
      from "1.IH"(1) [OF True pipe a b r this] show ?thesis .
    qed
  qed
qed

lemma splitByPipe_loop_no_pipe:
  "CHR ''|'' \<notin> set (drop i reqline) \<Longrightarrow>
     splitByPipe_loop reqline i current segments = Inr (current @ drop i reqline, segments)"
proof (induction reqline i current segments rule: splitByPipe_loop.induct)
  case (1 reqline i current segments)
  show ?case
  proof (cases "i < length reqline")
    case False
    then show ?thesis by (subst splitByPipe_loop.simps) simp
  next
    case True
    then have d: "drop i reqline = reqline ! i # drop (Suc i) reqline"
      by (simp add: Cons_nth_drop_Suc)
    with "1.prems" have np: "reqline ! i \<noteq> CHR ''|''" and
      rest: "CHR ''|'' \<notin> set (drop (i + 1) reqline)" by auto
    from "1.IH"(2) [OF True np rest] True np d show ?thesis
      by (subst splitByPipe_loop.simps) simp
  qed
qed

lemma splitByPipe_Inl:
  "splitByPipe reqline = Inl e \<Longrightarrow> e = Invalid_pipe_spacing \<or> e = Missing_sections"
  by (auto simp: splitByPipe_def Let_def split: sum.splits prod.splits if_splits
           dest: splitByPipe_loop_Inl)

lemma splitByPipe_Inr:
  assumes "splitByPipe reqline = Inr segments"
  shows "(\<forall>s\<in>set segments. trimmed s) \<and> 2 \<le> length segments \<and> trim reqline \<noteq> []"
proof -
  from assms obtain current segs where
    l: "splitByPipe_loop reqline 0 [] [] = Inr (current, segs)"
    by (auto simp: splitByPipe_def split: sum.splits)
  from splitByPipe_loop_trimmed [OF l] have t: "\<forall>s\<in>set segs. trimmed s" by simp
  from assms l have s: "segments = (if trim current \<noteq> [] then segs @ [trim current] else segs)"
    and n: "2 \<le> length segments"
    by (auto simp: splitByPipe_def Let_def split: if_splits)
  from s t have 1: "\<forall>s\<in>set segments. trimmed s" by (auto simp: trimmed_trim)
  have "trim reqline \<noteq> []"
  proof
    assume b: "trim reqline = []"
    then have "CHR ''|'' \<notin> set (drop 0 reqline)"
      using is_ws_not_pipe by (auto simp: trim_Nil_iff)
    from splitByPipe_loop_no_pipe [OF this, of "[]" "[]"] l
    have "current = reqline" and "segs = []" by auto
    with s b n show False by simp
  qed
  with 1 n show ?thesis by blast
qed

lemma classifiable_keyword: "classifiable segment \<Longrightarrow> firstWord (trim segment) \<in> set ALL_KEYWORDS"
proof -
  assume "classifiable segment"
  then obtain keyword v where "parseSegment segment 0 = Inr (keyword, v)"
    by (cases "parseSegment segment 0") (auto simp: classifiable_def)
  from parseSegment_Inr [OF this] show ?thesis by blast
qed

text \<open>After the loop, a keyword that heads a segment has a truthy text.\<close>

lemma parsed_keyword_truthy:
  assumes l: "parseReqline_loop segments 0 Map.empty = Inr ps"
    and s: "segment \<in> set segments" and t: "trimmed segment"
  shows "truthy_text (ps (firstWord segment))"
proof -
  from parseReqline_loop_Inr [OF l]
  have d: "dom ps = (\<lambda>s. firstWord (trim s)) ` set segments" and e: "\<forall>kw. ps kw \<noteq> Some []"
    by auto
  from s t have "firstWord segment \<in> (\<lambda>s. firstWord (trim s)) ` set segments"
    by (metis (mono_tags, lifting) image_eqI trim_trimmed)
  with d obtain v where "ps (firstWord segment) = Some v" by auto
  with e show ?thesis by (auto simp: truthy_text_def)
qed

lemma parseReqline_scan_failed:
  "trim reqline \<noteq> [] \<Longrightarrow> splitByPipe reqline = Inl e \<Longrightarrow> parseReqline JSON_parse reqline = Inl e"
  by (simp add: parseReqline_def)

lemma parseReqline_loop_failed:
  assumes "splitByPipe reqline = Inr segments"
    and "parseReqline_loop segments 0 Map.empty = Inl e"
  shows "parseReqline JSON_parse reqline = Inl e"
  using assms splitByPipe_Inr [OF assms(1)] by (simp add: parseReqline_def)

lemma parseReqline_order_failed:
  assumes "splitByPipe reqline = Inr segments"
    and "parseReqline_loop segments 0 Map.empty = Inr ps"
    and "validateKeywordOrder segments = Inl e"
  shows "parseReqline JSON_parse reqline = Inl e"
  using assms splitByPipe_Inr [OF assms(1)] by (simp add: parseReqline_def)

lemma validateKeywordOrder_Inr:
  "validateKeywordOrder segments = Inr u \<Longrightarrow>
     2 \<le> length segments \<and> firstWord (segments ! 0) = ''HTTP'' \<and> firstWord (segments ! 1) = ''URL''"
  by (auto simp: validateKeywordOrder_def Let_def split: if_splits)

lemma parseReqline_sections:
  assumes sp: "splitByPipe reqline = Inr segments"
    and l: "parseReqline_loop segments 0 Map.empty = Inr ps"
    and o: "validateKeywordOrder segments = Inr u"
  shows "parseReqline JSON_parse reqline = sections JSON_parse ps"
proof -
  from splitByPipe_Inr [OF sp] have t: "\<forall>s\<in>set segments. trimmed s" and nb: "trim reqline \<noteq> []"
    by auto
  from validateKeywordOrder_Inr [OF o] have n: "2 \<le> length segments"
    and h: "firstWord (segments ! 0) = ''HTTP''" and u: "firstWord (segments ! 1) = ''URL''"
    by auto
  have m0: "segments ! 0 \<in> set segments" by (rule nth_mem) (use n in linarith)
  have m1: "segments ! 1 \<in> set segments" by (rule nth_mem) (use n in linarith)
  from parsed_keyword_truthy [OF l m0] t m0 h have "truthy_text (ps ''HTTP'')" by auto
  moreover from parsed_keyword_truthy [OF l m1] t m1 u have "truthy_text (ps ''URL'')" by auto
  ultimately have "validateRequiredKeywords ps = Inr ()"
    by (simp add: validateRequiredKeywords_def REQUIRED_KEYWORDS_def)
  with sp l o nb show ?thesis by (simp add: parseReqline_def sections_def)
qed

section \<open>Facts about the optional sections and the failures of the parser\<close>

lemma catch_json_own: "catch_json sectionName (Invalid_JSON sectionName) = Invalid_JSON sectionName"
  by (simp add: catch_json_def)

lemma parseJsonSection_alt:
  "parseJsonSection JSON_parse text sectionName =
     (case JSON_parse text of
        Inl m \<Rightarrow> Inl (catch_json sectionName (Syntax_error m))
      | Inr parsed \<Rightarrow>
          (if is_object parsed then Inr parsed
           else Inl (catch_json sectionName (Invalid_JSON sectionName))))"
proof (cases "JSON_parse text")
  case (Inl m)
  then show ?thesis by (simp add: parseJsonSection_def)
next
  case (Inr parsed)
  then show ?thesis by (cases parsed) (simp_all add: parseJsonSection_def)
qed

lemma parseJsonSection_Inr:
  "parseJsonSection JSON_parse text sectionName = Inr v \<Longrightarrow> JSON_parse text = Inr v \<and> is_object v"
  by (auto simp: parseJsonSection_alt split: sum.splits if_splits)

lemma parseJsonSection_Inl:
  "parseJsonSection JSON_parse text sectionName = Inl e \<Longrightarrow>
     bad_json JSON_parse text \<and>
     (e = Invalid_JSON sectionName \<or>
      (\<exists>m. JSON_parse text = Inl m \<and> e = Syntax_error m \<and> str_includes m ''JSON format''))"
  by (auto simp: parseJsonSection_alt bad_json_def catch_json_def
           split: sum.splits if_splits)

lemma parseJsonSection_bad:
  assumes "bad_json JSON_parse text"
    and "\<forall>m. JSON_parse text = Inl m \<longrightarrow> \<not> str_includes m ''JSON format''"
  shows "parseJsonSection JSON_parse text sectionName = Inl (Invalid_JSON sectionName)"
  using assms
  by (auto simp: parseJsonSection_alt bad_json_def catch_json_def
           split: sum.splits)

lemma optional_section_Inr:
  "optional_section JSON_parse ps sectionName = Inr v \<Longrightarrow>
     is_object v \<and> (ps sectionName = None \<longrightarrow> v = JObject [])"
  by (auto simp: optional_section_def split: option.splits if_splits dest: parseJsonSection_Inr)

lemma optional_section_Inl:
  "optional_section JSON_parse ps sectionName = Inl e \<Longrightarrow>
     (\<exists>text. ps sectionName = Some text \<and> bad_json JSON_parse text) \<and>
     (e = Invalid_JSON sectionName \<or> (\<exists>m. e = Syntax_error m \<and> str_includes m ''JSON format''))"
  by (auto simp: optional_section_def split: option.splits if_splits dest: parseJsonSection_Inl)

lemma sections_Inl:
  assumes "sections JSON_parse ps = Inl e"
  shows "(\<exists>sectionName\<in>set OPTIONAL_KEYWORDS.
            (\<exists>text. ps sectionName = Some text \<and> bad_json JSON_parse text) \<and>
            (e = Invalid_JSON sectionName \<or>
             (\<exists>m. e = Syntax_error m \<and> str_includes m ''JSON format'')))"
proof -
  from assms consider
      "optional_section JSON_parse ps ''HEADERS'' = Inl e"
    | "optional_section JSON_parse ps ''QUERY'' = Inl e"
    | "optional_section JSON_parse ps ''BODY'' = Inl e"
    by (auto simp: sections_def split: sum.splits)
  then show ?thesis
  proof cases
    case 1
    from optional_section_Inl [OF 1] show ?thesis by (simp add: OPTIONAL_KEYWORDS_def)
  next
    case 2
    from optional_section_Inl [OF 2] show ?thesis by (simp add: OPTIONAL_KEYWORDS_def)
  next
    case 3
    from optional_section_Inl [OF 3] show ?thesis by (simp add: OPTIONAL_KEYWORDS_def)
  qed
qed

lemma sections_Inr:
  assumes "sections JSON_parse ps = Inr r"
  shows "optional_section JSON_parse ps ''HEADERS'' = Inr (headers r) \<and>
         optional_section JSON_parse ps ''QUERY'' = Inr (query r) \<and>
         optional_section JSON_parse ps ''BODY'' = Inr (body r) \<and>
         request_method r = ps ''HTTP'' \<and> url r = ps ''URL''"
  using assms by (auto simp: sections_def split: sum.splits)

text \<open>After a successful loop, the order check can only report two failures.\<close>

lemma validateKeywordOrder_Inl:
  assumes sp: "splitByPipe reqline = Inr segments"
    and l: "parseReqline_loop segments 0 Map.empty = Inr ps"
    and o: "validateKeywordOrder segments = Inl e"
  shows "(e = HTTP_first \<and> firstWord (segments ! 0) \<noteq> ''HTTP'') \<or>
         (e = Missing_keyword ''URL'' \<and> firstWord (segments ! 0) = ''HTTP'' \<and>
            firstWord (segments ! 1) \<noteq> ''URL'')"
proof -
  from splitByPipe_Inr [OF sp] have t: "\<forall>s\<in>set segments. trimmed s" and n: "2 \<le> length segments"
    by auto
  have m1: "segments ! 1 \<in> set segments" by (rule nth_mem) (use n in linarith)
  from parseReqline_loop_Inr [OF l] m1 have "classifiable (segments ! 1)" by blast
  from classifiable_keyword [OF this] t m1
  have "firstWord (segments ! 1) \<in> set ALL_KEYWORDS" by (simp add: trim_trimmed)
  with o n show ?thesis
    by (auto simp: validateKeywordOrder_def Let_def split: if_splits)
qed

text \<open>Every failure of \<open>parseReqline\<close>.\<close>

lemma parseReqline_Inl:
  assumes "parseReqline JSON_parse reqline = Inl e"
  shows "e \<in> {Empty_statement, Invalid_pipe_spacing, Missing_sections, HTTP_first,
               Missing_keyword ''URL''} \<or>
         (\<exists>segment. parseSegment segment 0 = Inl e) \<or>
         (\<exists>keyword\<in>set ALL_KEYWORDS. e = Duplicate_keyword keyword) \<or>
         (\<exists>sectionName\<in>set OPTIONAL_KEYWORDS. e = Invalid_JSON sectionName) \<or>
         (\<exists>m. e = Syntax_error m \<and> str_includes m ''JSON format'')"
proof (cases "trim reqline = []")
  case True
  with assms show ?thesis by (simp add: parseReqline_def)
next
  case nb: False
  show ?thesis
  proof (cases "splitByPipe reqline")
    case (Inl e')
    from parseReqline_scan_failed [OF nb Inl] assms have "e' = e" by simp
    with splitByPipe_Inl [OF Inl] show ?thesis by auto
  next
    case sp: (Inr segments)
    show ?thesis
    proof (cases "parseReqline_loop segments 0 Map.empty")
      case (Inl e')
      from parseReqline_loop_failed [OF sp Inl] assms have "e' = e" by simp
      with parseReqline_loop_Inl [OF Inl] show ?thesis by auto
    next
      case l: (Inr ps)
      show ?thesis
      proof (cases "validateKeywordOrder segments")
        case (Inl e')
        from parseReqline_order_failed [OF sp l Inl] assms have "e' = e" by simp
        with validateKeywordOrder_Inl [OF sp l Inl] show ?thesis by auto
      next
        case (Inr u)
        from parseReqline_sections [OF sp l Inr] assms
        have "sections JSON_parse ps = Inl e" by simp
        from sections_Inl [OF this] show ?thesis by blast
      qed
    qed
  qed
qed

lemma not_includes_URL_second: "\<not> str_includes ''URL keyword must be second'' ''JSON format''"
  by code_simp

lemma not_includes_URL_empty: "\<not> str_includes ''URL cannot be empty'' ''JSON format''"
  by code_simp

lemma parseSegment_Inl_message:
  assumes "parseSegment segment i = Inl e"
  shows "message e \<noteq> ''URL keyword must be second'' \<and> message e \<noteq> ''URL cannot be empty''"
  using parseSegment_Inl [OF assms] by auto

lemma parseReqline_Inl_message:
  assumes "parseReqline JSON_parse reqline = Inl e"
  shows "message e \<noteq> ''URL keyword must be second'' \<and> message e \<noteq> ''URL cannot be empty''"
  using parseReqline_Inl [OF assms] not_includes_URL_second not_includes_URL_empty
    parseSegment_Inl_message
  by (elim disjE exE bexE conjE) auto

lemma parseSegment_Empty: "parseSegment segment i = Inl Empty_segment \<Longrightarrow> trim segment = []"
  by (auto simp: parseSegment_def Let_def split: if_splits option.splits)

lemma parseSegment_Inl_unrecognized:
  assumes "parseSegment segment i = Inl e" and "firstWord (trim segment) \<notin> set ALL_KEYWORDS"
  shows "e \<in> {Empty_segment, Missing_space, Keywords_uppercase,
               Invalid_keyword (firstWord (trim segment))}"
proof (cases "trim segment = []")
  case True
  with assms show ?thesis by (simp add: parseSegment_def)
next
  case ne: False
  show ?thesis
  proof (cases "firstSpace (trim segment)")
    case None
    with assms ne show ?thesis by (simp add: parseSegment_def)
  next
    case (Some j)
    from firstWord_take [OF Some] have fw: "firstWord (trim segment) = take j (trim segment)" .
    from assms ne Some show ?thesis
      unfolding fw by (auto simp: parseSegment_def Let_def split: if_splits)
  qed
qed

lemma parseReqline_Inr:
  assumes "parseReqline JSON_parse reqline = Inr r"
  shows "\<exists>segments ps. splitByPipe reqline = Inr segments \<and>
           parseReqline_loop segments 0 Map.empty = Inr ps \<and>
           validateKeywordOrder segments = Inr () \<and> sections JSON_parse ps = Inr r"
proof -
  from assms obtain segments where sp: "splitByPipe reqline = Inr segments"
    by (cases "splitByPipe reqline") (auto simp: parseReqline_def split: if_splits)
  from assms sp obtain ps where l: "parseReqline_loop segments 0 Map.empty = Inr ps"
    by (cases "parseReqline_loop segments 0 Map.empty")
       (auto simp: parseReqline_def split: if_splits)
  from assms sp l have o: "validateKeywordOrder segments = Inr ()"
    by (cases "validateKeywordOrder segments") (auto simp: parseReqline_def split: if_splits)
  from parseReqline_sections [OF sp l o] assms have "sections JSON_parse ps = Inr r" by simp
  with sp l o show ?thesis by blast
qed

lemma firstSpace_append:
  "CHR '' '' \<notin> set keyword \<Longrightarrow> firstSpace (keyword @ CHR '' '' # rest) = Some (length keyword)"
  by (induction keyword) auto

lemma keyword_no_space: "keyword \<in> set ALL_KEYWORDS \<Longrightarrow> CHR '' '' \<notin> set keyword"
  by (auto simp: set_ALL_KEYWORDS)

text \<open>The loop keeps a truthy property, and every property it returns comes from a segment.\<close>

lemma parseReqline_loop_keeps:
  "parseReqline_loop segments i ps = Inr ps' \<Longrightarrow> ps keyword = Some v \<Longrightarrow> v \<noteq> [] \<Longrightarrow>
     ps' keyword = Some v"
proof (induction segments arbitrary: i ps)
  case Nil
  then show ?case by simp
next
  case (Cons segment segments)
  from Cons.prems(1) obtain k' v' where kv: "parseSegment segment i = Inr (k', v')"
    by (cases "parseSegment segment i") auto
  from Cons.prems(1) kv have nt: "\<not> truthy_text (ps k')"
    and rec: "parseReqline_loop segments (i + 1) (ps(k' \<mapsto> v')) = Inr ps'"
    by (auto split: if_splits)
  from nt Cons.prems(2,3) have "k' \<noteq> keyword" by (auto simp: truthy_text_def)
  with Cons.prems(2) have "(ps(k' \<mapsto> v')) keyword = Some v" by simp
  from Cons.IH [OF rec this Cons.prems(3)] show ?case .
qed

lemma parseReqline_loop_lookup:
  "parseReqline_loop segments i ps = Inr ps' \<Longrightarrow> segment \<in> set segments \<Longrightarrow>
     parseSegment segment 0 = Inr (keyword, v) \<Longrightarrow> ps' keyword = Some v"
proof (induction segments arbitrary: i ps)
  case Nil
  then show ?case by simp
next
  case (Cons s segments)
  from Cons.prems(1) obtain k' v' where kv: "parseSegment s i = Inr (k', v')"
    by (cases "parseSegment s i") auto
  from Cons.prems(1) kv
  have rec: "parseReqline_loop segments (i + 1) (ps(k' \<mapsto> v')) = Inr ps'"
    by (auto split: if_splits)
  show ?case
  proof (cases "segment = s")
    case True
    with kv Cons.prems(3) parseSegment_index [of s i 0] have "k' = keyword" and "v' = v" by auto
    moreover from parseSegment_Inr [OF kv] have "v' \<noteq> []" by simp
    ultimately show ?thesis using parseReqline_loop_keeps [OF rec, of keyword v] by simp
  next
    case False
    with Cons.prems(2) have "segment \<in> set segments" by simp
    from Cons.IH [OF rec this Cons.prems(3)] show ?thesis .
  qed
qed

lemma parseReqline_loop_origin:
  "parseReqline_loop segments i ps = Inr ps' \<Longrightarrow> ps' keyword = Some v \<Longrightarrow>
     ps keyword = Some v \<or> (\<exists>segment\<in>set segments. parseSegment segment 0 = Inr (keyword, v))"
proof (induction segments arbitrary: i ps)
  case Nil
  then show ?case by simp
next
  case (Cons s segments)
  from Cons.prems(1) obtain k' v' where kv: "parseSegment s i = Inr (k', v')"
    by (cases "parseSegment s i") auto
  from Cons.prems(1) kv
  have rec: "parseReqline_loop segments (i + 1) (ps(k' \<mapsto> v')) = Inr ps'"
    by (auto split: if_splits)
  from kv parseSegment_index [of s 0 i] have kv0: "parseSegment s 0 = Inr (k', v')" by simp
  from Cons.IH [OF rec Cons.prems(2)] kv0 show ?case
    by (auto split: if_splits)
qed

text \<open>Classifiable segments with distinct keywords pass the loop.\<close>

lemma classification_passes:
  assumes sp: "splitByPipe reqline = Inr segments"
    and cl: "\<forall>segment\<in>set segments. classifiable segment"
    and di: "distinct (map firstWord segments)"
  shows "\<exists>ps. parseReqline_loop segments 0 Map.empty = Inr ps"
proof -
  from splitByPipe_Inr [OF sp] have "\<forall>s\<in>set segments. trimmed s" by simp
  then have eq: "map (\<lambda>s. firstWord (trim s)) segments = map firstWord segments"
    by (simp add: trim_trimmed)
  have "distinct (map (\<lambda>s. firstWord (trim s)) segments)" by (subst eq) (rule di)
  with cl show ?thesis by (intro parseReqline_loop_succeeds) auto
qed

lemma splitByPipe_no_pipe:
  assumes "CHR ''|'' \<notin> set reqline"
  shows "splitByPipe reqline = Inl Missing_sections"
proof -
  from assms have "CHR ''|'' \<notin> set (drop 0 reqline)" by simp
  from splitByPipe_loop_no_pipe [OF this, of "[]" "[]"]
  show ?thesis by (simp add: splitByPipe_def)
qed

lemma validateKeywordOrder_not_first:
  "2 \<le> length segments \<Longrightarrow> firstWord (segments ! 0) \<noteq> ''HTTP'' \<Longrightarrow>
     validateKeywordOrder segments = Inl HTTP_first"
  by (simp add: validateKeywordOrder_def)

lemma optional_section_absent_or_good:
  assumes "\<forall>text. ps sectionName = Some text \<longrightarrow> \<not> bad_json JSON_parse text"
  shows "\<exists>v. optional_section JSON_parse ps sectionName = Inr v"
proof (cases "optional_section JSON_parse ps sectionName")
  case (Inl e)
  from optional_section_Inl [OF Inl] assms show ?thesis by blast
next
  case (Inr v)
  then show ?thesis by blast
qed

lemma optional_section_bad:
  assumes "ps sectionName = Some text" and "text \<noteq> []" and "bad_json JSON_parse text"
    and "\<forall>m. JSON_parse text = Inl m \<longrightarrow> \<not> str_includes m ''JSON format''"
  shows "optional_section JSON_parse ps sectionName = Inl (Invalid_JSON sectionName)"
  using assms parseJsonSection_bad [OF assms(3,4)] by (simp add: optional_section_def)

lemma sections_first_bad:
  assumes n: "sectionName \<in> set OPTIONAL_KEYWORDS"
    and b: "optional_section JSON_parse ps sectionName = Inl (Invalid_JSON sectionName)"
    and g: "\<forall>name\<in>set (takeWhile (\<lambda>n. n \<noteq> sectionName) OPTIONAL_KEYWORDS).
              \<exists>v. optional_section JSON_parse ps name = Inr v"
  shows "sections JSON_parse ps = Inl (Invalid_JSON sectionName)"
proof -
  from n consider "sectionName = ''HEADERS''" | "sectionName = ''QUERY''" | "sectionName = ''BODY''"
    by (auto simp: OPTIONAL_KEYWORDS_def)
  then show ?thesis
  proof cases
    case 1
    with b show ?thesis by (simp add: sections_def)
  next
    case 2
    with g obtain h where "optional_section JSON_parse ps ''HEADERS'' = Inr h"
      by (auto simp: OPTIONAL_KEYWORDS_def)
    with b 2 show ?thesis by (simp add: sections_def)
  next
    case 3
    with g obtain h q where "optional_section JSON_parse ps ''HEADERS'' = Inr h"
      and "optional_section JSON_parse ps ''QUERY'' = Inr q"
      by (auto simp: OPTIONAL_KEYWORDS_def)
    with b 3 show ?thesis by (simp add: sections_def)
  qed
qed

lemma invalid_json_sufficient:
  assumes sp: "splitByPipe reqline = Inr segments"
    and cl: "\<forall>segment\<in>set segments. classifiable segment"
    and di: "distinct (map firstWord segments)"
    and h: "firstWord (segments ! 0) = ''HTTP''"
    and u: "firstWord (segments ! 1) = ''URL''"
    and n: "sectionName \<in> set OPTIONAL_KEYWORDS"
    and s: "segment \<in> set segments"
    and p: "parseSegment segment 0 = Inr (sectionName, text)"
    and b: "bad_json JSON_parse text"
    and m: "\<forall>m. JSON_parse text = Inl m \<longrightarrow> \<not> str_includes m ''JSON format''"
    and g: "\<forall>name\<in>set (takeWhile (\<lambda>n. n \<noteq> sectionName) OPTIONAL_KEYWORDS).
              \<forall>s\<in>set segments. \<forall>t. parseSegment s 0 = Inr (name, t) \<longrightarrow>
                \<not> bad_json JSON_parse t"
  shows "parseReqline JSON_parse reqline = Inl (Invalid_JSON sectionName)"
proof -
  from classification_passes [OF sp cl di] obtain ps where
    l: "parseReqline_loop segments 0 Map.empty = Inr ps" by blast
  from splitByPipe_Inr [OF sp] have "2 \<le> length segments" by simp
  with h u have o: "validateKeywordOrder segments = Inr ()"
    by (simp add: validateKeywordOrder_def)
  from parseReqline_loop_lookup [OF l s p] have v: "ps sectionName = Some text" .
  from parseSegment_Inr [OF p] have "text \<noteq> []" by simp
  with v b m
  have bad: "optional_section JSON_parse ps sectionName = Inl (Invalid_JSON sectionName)"
    by (intro optional_section_bad)
  have good: "\<forall>name\<in>set (takeWhile (\<lambda>n. n \<noteq> sectionName) OPTIONAL_KEYWORDS).
              \<exists>v. optional_section JSON_parse ps name = Inr v"
  proof
    fix name
    assume a: "name \<in> set (takeWhile (\<lambda>n. n \<noteq> sectionName) OPTIONAL_KEYWORDS)"
    have "\<forall>t. ps name = Some t \<longrightarrow> \<not> bad_json JSON_parse t"
    proof (intro allI impI)
      fix t
      assume "ps name = Some t"
      from parseReqline_loop_origin [OF l this] obtain s' where
        "s' \<in> set segments" and "parseSegment s' 0 = Inr (name, t)" by auto
      with g a show "\<not> bad_json JSON_parse t" by blast
    qed
    then show "\<exists>v. optional_section JSON_parse ps name = Inr v"
      by (rule optional_section_absent_or_good)
  qed
  from parseReqline_sections [OF sp l o] sections_first_bad [OF n bad good]
  show ?thesis by simp
qed

lemma invalid_json_necessary:
  assumes "parseReqline JSON_parse reqline = Inl (Invalid_JSON sectionName)"
  shows "sectionName \<in> set OPTIONAL_KEYWORDS \<and>
         (\<exists>segments segment text. splitByPipe reqline = Inr segments \<and> segment \<in> set segments \<and>
            parseSegment segment 0 = Inr (sectionName, text) \<and> bad_json JSON_parse text)"
proof -
  from assms have nb: "trim reqline \<noteq> []" by (auto simp: parseReqline_def split: if_splits)
  from assms nb obtain segments where sp: "splitByPipe reqline = Inr segments"
    using splitByPipe_Inl parseReqline_scan_failed
    by (cases "splitByPipe reqline") fastforce+
  obtain ps where l: "parseReqline_loop segments 0 Map.empty = Inr ps"
  proof (cases "parseReqline_loop segments 0 Map.empty")
    case (Inl e)
    from parseReqline_loop_failed [OF sp Inl] assms have e: "e = Invalid_JSON sectionName" by simp
    from parseReqline_loop_Inl [OF Inl] e parseSegment_Inl [of _ 0 e] have False by auto
    then show ?thesis ..
  next
    case (Inr ps)
    with that show ?thesis .
  qed
  have o: "validateKeywordOrder segments = Inr ()"
  proof (cases "validateKeywordOrder segments")
    case (Inl e)
    from parseReqline_order_failed [OF sp l Inl] assms validateKeywordOrder_Inl [OF sp l Inl]
    have False by auto
    then show ?thesis ..
  next
    case (Inr u)
    then show ?thesis by simp
  qed
  from parseReqline_sections [OF sp l o] assms
  have "sections JSON_parse ps = Inl (Invalid_JSON sectionName)" by simp
  from sections_Inl [OF this] obtain tx where n: "sectionName \<in> set OPTIONAL_KEYWORDS"
    and v: "ps sectionName = Some tx" and b: "bad_json JSON_parse tx" by auto
  from parseReqline_loop_origin [OF l v] obtain segment where
    "segment \<in> set segments" and "parseSegment segment 0 = Inr (sectionName, tx)" by auto
  with sp n b show ?thesis by blast
qed

text \<open>A pipe that lacks the space right before it or right after it stops the scan.\<close>

lemma splitByPipe_loop_bad_pipe:
  "i \<le> j \<Longrightarrow> j < length reqline \<Longrightarrow> reqline ! j = CHR ''|'' \<Longrightarrow>
   j = 0 \<or> reqline ! (j - 1) \<noteq> CHR '' '' \<or> j = length reqline - 1 \<or>
     reqline ! (j + 1) \<noteq> CHR '' '' \<Longrightarrow>
   splitByPipe_loop reqline i current segments = Inl Invalid_pipe_spacing"
proof (induction reqline i current segments rule: splitByPipe_loop.induct)
  case (1 reqline i current segments)
  from "1.prems" have il: "i < length reqline" by simp
  show ?case
  proof (cases "reqline ! i = CHR ''|''")
    case False
    with "1.prems" have "i \<noteq> j" by auto
    with "1.prems" have le: "i + 1 \<le> j" by simp
    from "1.IH"(2) [OF il False le "1.prems"(2,3,4)] il False show ?thesis
      by (subst splitByPipe_loop.simps) simp
  next
    case pipe: True
    show ?thesis
    proof (cases "i = 0 \<or> reqline ! (i - 1) \<noteq> CHR '' '' \<or> i = length reqline - 1 \<or>
                  reqline ! (i + 1) \<noteq> CHR '' ''")
      case True
      with il pipe show ?thesis by (subst splitByPipe_loop.simps) auto
    next
      case False
      then have a: "\<not> (i = 0 \<or> reqline ! (i - 1) \<noteq> CHR '' '')"
        and b: "\<not> (i = length reqline - 1 \<or> reqline ! (i + 1) \<noteq> CHR '' '')" by auto
      from False "1.prems"(4) have "i \<noteq> j" by auto
      moreover from b "1.prems"(3) have "i + 1 \<noteq> j" by auto
      ultimately have le: "i + 2 \<le> j" using "1.prems"(1) by simp
      from "1.IH"(1) [OF il pipe a b le "1.prems"(2,3,4)] il pipe a b show ?thesis
        by (subst splitByPipe_loop.simps) simp
    qed
  qed
qed

lemma pipe_without_space_rejected:
  assumes "j < length reqline" and "reqline ! j = CHR ''|''"
    and "j = 0 \<or> reqline ! (j - 1) \<noteq> CHR '' '' \<or> j = length reqline - 1 \<or>
           reqline ! (j + 1) \<noteq> CHR '' ''"
  shows "parseReqline JSON_parse reqline = Inl Invalid_pipe_spacing"
proof -
  from splitByPipe_loop_bad_pipe [OF _ assms, of 0 "[]" "[]"]
  have s: "splitByPipe reqline = Inl Invalid_pipe_spacing" by (simp add: splitByPipe_def)
  from assms(1,2) have "CHR ''|'' \<in> set reqline" by (metis nth_mem)
  with is_ws_not_pipe have "trim reqline \<noteq> []" by (auto simp: trim_Nil_iff)
  from parseReqline_scan_failed [OF this s] show ?thesis .
qed

section \<open>Evaluations on concrete statements\<close>

lemma seg_HTTP_GET: "parseSegment ''HTTP GET'' i = Inr (''HTTP'', ''GET'')"
  by (subst parseSegment_index [of _ _ 0]) code_simp

lemma seg_URL_example:
  "parseSegment ''URL https://example.com'' i = Inr (''URL'', ''https://example.com'')"
  by (subst parseSegment_index [of _ _ 0]) code_simp

lemma split_two_before:
  "splitByPipe ''HTTP GET  | URL https://example.com'' =
     Inr [''HTTP GET'', ''URL https://example.com'']"
  by code_simp

lemma split_two_after:
  "splitByPipe ''HTTP GET |  URL https://example.com'' =
     Inr [''HTTP GET'', ''URL https://example.com'']"
  by code_simp

lemma loop_GET_example:
  "parseReqline_loop [''HTTP GET'', ''URL https://example.com''] 0 Map.empty =
     Inr [''HTTP'' \<mapsto> ''GET'', ''URL'' \<mapsto> ''https://example.com'']"
  by (simp add: seg_HTTP_GET seg_URL_example truthy_text_def)

lemma order_GET_example:
  "validateKeywordOrder [''HTTP GET'', ''URL https://example.com''] = Inr ()"
  by code_simp

lemma sections_GET_example:
  "sections JSON_parse [''HTTP'' \<mapsto> ''GET'', ''URL'' \<mapsto> ''https://example.com''] =
     Inr \<lparr>request_method = Some ''GET'', url = Some ''https://example.com'',
          headers = JObject [], query = JObject [], body = JObject []\<rparr>"
  by (simp add: sections_def optional_section_def)

lemma seg_INVALID: "parseSegment ''INVALID x'' i = Inl (Invalid_keyword ''INVALID'')"
  by (subst parseSegment_index [of _ _ 0]) code_simp

lemma split_invalid_second:
  "splitByPipe ''HTTP GET | INVALID x'' = Inr [''HTTP GET'', ''INVALID x'']"
  by code_simp

lemma INVALID_unrecognized: "''INVALID'' \<notin> set ALL_KEYWORDS"
  by (simp add: set_ALL_KEYWORDS)

lemma firstWord_INVALID: "firstWord ''INVALID x'' = ''INVALID''"
  by (simp add: firstWord_def)







lemma seg_URL_a: "parseSegment ''URL https://a.com/x'' i = Inr (''URL'', ''https://a.com/x'')"
  by (subst parseSegment_index [of _ _ 0]) code_simp

lemma seg_QUERY_k: "parseSegment ''QUERY {\"k\":1}'' i = Inr (''QUERY'', ''{\"k\":1}'')"
  by (subst parseSegment_index [of _ _ 0]) code_simp

lemma split_roundtrip:
  "splitByPipe ''HTTP GET | URL https://a.com/x | QUERY {\"k\":1}'' =
     Inr [''HTTP GET'', ''URL https://a.com/x'', ''QUERY {\"k\":1}'']"
  by code_simp

lemma loop_roundtrip:
  "parseReqline_loop [''HTTP GET'', ''URL https://a.com/x'', ''QUERY {\"k\":1}''] 0 Map.empty =
     Inr [''HTTP'' \<mapsto> ''GET'', ''URL'' \<mapsto> ''https://a.com/x'', ''QUERY'' \<mapsto> ''{\"k\":1}'']"
  by (simp add: seg_HTTP_GET seg_URL_a seg_QUERY_k truthy_text_def)

lemma order_roundtrip:
  "validateKeywordOrder [''HTTP GET'', ''URL https://a.com/x'', ''QUERY {\"k\":1}''] = Inr ()"
  by code_simp

lemma omitted_roundtrip:
  "section_omitted ''HEADERS'' ''HTTP GET | URL https://a.com/x | QUERY {\"k\":1}'' \<and>
   section_omitted ''BODY'' ''HTTP GET | URL https://a.com/x | QUERY {\"k\":1}'' \<and>
   \<not> section_omitted ''QUERY'' ''HTTP GET | URL https://a.com/x | QUERY {\"k\":1}''"
  by (simp add: section_omitted_def split_roundtrip firstWord_def)

lemma sample_k: "JSON_parse_sample ''{\"k\":1}'' = Inr (JObject [(''k'', JNumber 1)])"
  by (simp add: JSON_parse_sample_def)

lemma parse_roundtrip_sample:
  "parseReqline JSON_parse_sample ''HTTP GET | URL https://a.com/x | QUERY {\"k\":1}'' =
           Inr \<lparr>request_method = Some ''GET'', url = Some ''https://a.com/x'',
                headers = JObject [], query = JObject [(''k'', JNumber 1)],
                body = JObject []\<rparr>"
  using parseReqline_sections [OF split_roundtrip loop_roundtrip order_roundtrip,
      of JSON_parse_sample] sample_k
  by (simp add: sections_def optional_section_def parseJsonSection_def)

lemma seg_HEADERS_empty: "parseSegment ''HEADERS {}'' i = Inr (''HEADERS'', ''{}'')"
  by (subst parseSegment_index [of _ _ 0]) code_simp

lemma seg_QUERY_empty: "parseSegment ''QUERY {}'' i = Inr (''QUERY'', ''{}'')"
  by (subst parseSegment_index [of _ _ 0]) code_simp

lemma split_duplicate_HEADERS:
  "splitByPipe ''HTTP GET | HEADERS {} | HEADERS {}'' =
     Inr [''HTTP GET'', ''HEADERS {}'', ''HEADERS {}'']"
  by code_simp

lemma split_HEADERS_second:
  "splitByPipe ''HTTP GET | HEADERS {}'' = Inr [''HTTP GET'', ''HEADERS {}'']"
  by code_simp

lemma split_no_required:
  "splitByPipe ''HEADERS {} | QUERY {}'' = Inr [''HEADERS {}'', ''QUERY {}'']"
  by code_simp

lemma firstWord_examples:
  "firstWord ''HTTP GET'' = ''HTTP''" "firstWord ''HEADERS {}'' = ''HEADERS''"
  "firstWord ''QUERY {}'' = ''QUERY''"
  by (simp_all add: firstWord_def)

lemma classifiable_examples:
  "classifiable ''HTTP GET''" "classifiable ''HEADERS {}''" "classifiable ''QUERY {}''"
  by (simp_all add: classifiable_def seg_HTTP_GET seg_HEADERS_empty seg_QUERY_empty)

lemma parse_duplicate_HEADERS:
  "parseReqline JSON_parse ''HTTP GET | HEADERS {} | HEADERS {}'' =
     Inl (Duplicate_keyword ''HEADERS'')"
  by (rule parseReqline_loop_failed [OF split_duplicate_HEADERS])
     (simp add: seg_HTTP_GET seg_HEADERS_empty truthy_text_def)

lemma parse_HTTP_GET_alone: "parseReqline JSON_parse ''HTTP GET'' = Inl Missing_sections"
proof -
  have "splitByPipe ''HTTP GET'' = Inl Missing_sections" by (rule splitByPipe_no_pipe) simp
  moreover have "trim ''HTTP GET'' \<noteq> []" by code_simp
  ultimately show ?thesis by (rule parseReqline_scan_failed [rotated])
qed

lemma loop_no_required:
  "parseReqline_loop [''HEADERS {}'', ''QUERY {}''] 0 Map.empty =
     Inr [''HEADERS'' \<mapsto> ''{}'', ''QUERY'' \<mapsto> ''{}'']"
  by (simp add: seg_HEADERS_empty seg_QUERY_empty truthy_text_def)

lemma parse_no_required: "parseReqline JSON_parse ''HEADERS {} | QUERY {}'' = Inl HTTP_first"
  by (rule parseReqline_order_failed [OF split_no_required loop_no_required])
     (simp add: validateKeywordOrder_def firstWord_examples)

lemma seg_URL_a_com: "parseSegment ''URL https://a.com'' i = Inr (''URL'', ''https://a.com'')"
  by (subst parseSegment_index [of _ _ 0]) code_simp

lemma seg_QUERY_array: "parseSegment ''QUERY []'' i = Inr (''QUERY'', ''[]'')"
  by (subst parseSegment_index [of _ _ 0]) code_simp

lemma seg_HEADERS_array: "parseSegment ''HEADERS []'' i = Inr (''HEADERS'', ''[]'')"
  by (subst parseSegment_index [of _ _ 0]) code_simp

lemma split_two_arrays:
  "splitByPipe ''HTTP GET | URL https://a.com | QUERY [] | HEADERS []'' =
     Inr [''HTTP GET'', ''URL https://a.com'', ''QUERY []'', ''HEADERS []'']"
  by code_simp

lemma split_one_array:
  "splitByPipe ''HTTP GET | URL https://a.com | QUERY []'' =
     Inr [''HTTP GET'', ''URL https://a.com'', ''QUERY []'']"
  by code_simp

lemma loop_two_arrays:
  "parseReqline_loop [''HTTP GET'', ''URL https://a.com'', ''QUERY []'', ''HEADERS []''] 0 Map.empty =
     Inr [''HTTP'' \<mapsto> ''GET'', ''URL'' \<mapsto> ''https://a.com'', ''QUERY'' \<mapsto> ''[]'',
          ''HEADERS'' \<mapsto> ''[]'']"
  by (simp add: seg_HTTP_GET seg_URL_a_com seg_QUERY_array seg_HEADERS_array truthy_text_def)

lemma order_two_arrays:
  "validateKeywordOrder [''HTTP GET'', ''URL https://a.com'', ''QUERY []'', ''HEADERS []''] = Inr ()"
  by code_simp

lemma sample_array: "JSON_parse_sample ''[]'' = Inr (JArray [])"
  by (simp add: JSON_parse_sample_def)

lemma bad_sample_array: "bad_json JSON_parse_sample ''[]''"
  by (simp add: bad_json_def sample_array)

lemma parse_two_arrays:
  "parseReqline JSON_parse_sample ''HTTP GET | URL https://a.com | QUERY [] | HEADERS []'' =
     Inl (Invalid_JSON ''HEADERS'')"
  using parseReqline_sections [OF split_two_arrays loop_two_arrays order_two_arrays,
      of JSON_parse_sample] sample_array
  by (simp add: sections_def optional_section_def parseJsonSection_def catch_json_own)


lemma seg_empty: "parseSegment [] i = Inl Empty_segment"
  by (subst parseSegment_index [of _ _ 0]) code_simp

lemma seg_HTTP_PUT: "parseSegment ''HTTP PUT'' i = Inl Invalid_method"
  by (subst parseSegment_index [of _ _ 0]) code_simp

lemma split_empty_second:
  "splitByPipe ''HTTP GET | | URL https://a.com'' = Inr [''HTTP GET'', [], ''URL https://a.com'']"
  by code_simp

lemma split_PUT_FOO: "splitByPipe ''HTTP PUT | FOO x'' = Inr [''HTTP PUT'', ''FOO x'']"
  by code_simp

lemma parse_empty_second:
  "parseReqline JSON_parse ''HTTP GET | | URL https://a.com'' = Inl Empty_segment"
  by (rule parseReqline_loop_failed [OF split_empty_second])
     (simp add: seg_HTTP_GET seg_empty truthy_text_def)

lemma parse_PUT_FOO: "parseReqline JSON_parse ''HTTP PUT | FOO x'' = Inl Invalid_method"
  by (rule parseReqline_loop_failed [OF split_PUT_FOO]) (simp add: seg_HTTP_PUT)

lemma unrecognized_examples:
  "firstWord [] \<notin> set ALL_KEYWORDS" "firstWord ''FOO x'' \<notin> set ALL_KEYWORDS"
  "firstWord ''FOO x'' = ''FOO''" "firstWord [] = []"
  by (simp_all add: firstWord_def set_ALL_KEYWORDS)

section \<open>The claims\<close>

subsection \<open>C1\<close>

text \<open>
  Claim C1, as stated: whenever the keyword of the first segment is \<open>HTTP\<close>, the keyword of the
  second segment is a recognized keyword other than \<open>URL\<close>, and every segment is classifiable,
  \<open>parseReqline\<close> fails with \<open>Missing required URL keyword\<close>. It is false for a statement that
  repeats a keyword: the duplicate is reported in the loop, before the order is validated.
\<close>

theorem duplicate_reported_before_missing_URL:
  "splitByPipe ''HTTP GET | HEADERS {} | HEADERS {}'' =
     Inr [''HTTP GET'', ''HEADERS {}'', ''HEADERS {}''] \<and>
   classifiable ''HTTP GET'' \<and> classifiable ''HEADERS {}'' \<and>
   firstWord ''HTTP GET'' = ''HTTP'' \<and>
   firstWord ''HEADERS {}'' \<in> set ALL_KEYWORDS \<and> firstWord ''HEADERS {}'' \<noteq> ''URL'' \<and>
   parseReqline JSON_parse_sample ''HTTP GET | HEADERS {} | HEADERS {}'' =
     Inl (Duplicate_keyword ''HEADERS'') \<and>
   parseReqline JSON_parse_sample ''HTTP GET | HEADERS {} | HEADERS {}'' \<noteq>
     Inl (Missing_keyword ''URL'')"
  by (simp add: split_duplicate_HEADERS classifiable_examples firstWord_examples
        set_ALL_KEYWORDS parse_duplicate_HEADERS)

text \<open>
  Claim C1, amended: whenever the keyword of the first segment is \<open>HTTP\<close>, the keyword of the
  second segment is a recognized keyword other than \<open>URL\<close>, every segment is classifiable and
  no keyword occurs twice, \<open>parseReqline\<close> fails with \<open>Missing required URL keyword\<close> (and not
  with the wrong-order error), whatever the optional sections hold.
\<close>

theorem missing_URL_when_second_is_other_keyword:
  assumes sp: "splitByPipe reqline = Inr segments"
    and cl: "\<forall>segment\<in>set segments. classifiable segment"
    and di: "distinct (map firstWord segments)"
    and h: "firstWord (segments ! 0) = ''HTTP''"
    and k: "firstWord (segments ! 1) \<in> set ALL_KEYWORDS"
    and u: "firstWord (segments ! 1) \<noteq> ''URL''"
  shows "parseReqline JSON_parse reqline = Inl (Missing_keyword ''URL'') \<and>
         message (Missing_keyword ''URL'') = ''Missing required URL keyword''"
proof -
  from classification_passes [OF sp cl di] obtain ps where
    l: "parseReqline_loop segments 0 Map.empty = Inr ps" by blast
  from splitByPipe_Inr [OF sp] have "2 \<le> length segments" by simp
  with h k u have "validateKeywordOrder segments = Inl (Missing_keyword ''URL'')"
    by (simp add: validateKeywordOrder_def)
  from parseReqline_order_failed [OF sp l this] show ?thesis by simp
qed

theorem missing_URL_when_second_is_other_keyword_witness:
  "splitByPipe ''HTTP GET | HEADERS {}'' = Inr [''HTTP GET'', ''HEADERS {}''] \<and>
   classifiable ''HTTP GET'' \<and> classifiable ''HEADERS {}'' \<and>
   distinct (map firstWord [''HTTP GET'', ''HEADERS {}'']) \<and>
   firstWord ([''HTTP GET'', ''HEADERS {}''] ! 0) = ''HTTP'' \<and>
   firstWord ([''HTTP GET'', ''HEADERS {}''] ! 1) \<in> set ALL_KEYWORDS \<and>
   firstWord ([''HTTP GET'', ''HEADERS {}''] ! 1) \<noteq> ''URL'' \<and>
   parseReqline JSON_parse_sample ''HTTP GET | HEADERS {}'' = Inl (Missing_keyword ''URL'')"
proof -
  have cl: "\<forall>segment\<in>set [''HTTP GET'', ''HEADERS {}'']. classifiable segment"
    by (simp add: classifiable_examples)
  have di: "distinct (map firstWord [''HTTP GET'', ''HEADERS {}''])"
    by (simp add: firstWord_examples)
  have h: "firstWord ([''HTTP GET'', ''HEADERS {}''] ! 0) = ''HTTP''"
    by (simp add: firstWord_examples)
  have k: "firstWord ([''HTTP GET'', ''HEADERS {}''] ! 1) \<in> set ALL_KEYWORDS"
    by (simp add: firstWord_examples set_ALL_KEYWORDS)
  have u: "firstWord ([''HTTP GET'', ''HEADERS {}''] ! 1) \<noteq> ''URL''"
    by (simp add: firstWord_examples)
  from missing_URL_when_second_is_other_keyword [OF split_HEADERS_second cl di h k u,
      of JSON_parse_sample] split_HEADERS_second classifiable_examples di h k u
  show ?thesis by blast
qed

subsection \<open>C2\<close>

text \<open>
  Claim C2. A pipe that is not surrounded by exactly one space on each side, two or more spaces
  before or after it included, should make \<open>parseReqline\<close> fail with the pipe-spacing error.
  A pipe that lacks the space right before it or right after it is rejected so
  (lemma \<open>pipe_without_space_rejected\<close>). But the scan only looks at the one character on
  each side of the pipe, and \<open>trim\<close> removes the further spaces: a statement with two spaces
  before the pipe, and one with two spaces after it, are both parsed with success, against the
  repository's own tests (\<open>should throw error for multiple spaces before pipe\<close>,
  \<open>should throw error for multiple spaces after pipe\<close>).
\<close>

theorem two_spaces_beside_pipe_accepted:
  "parseReqline JSON_parse ''HTTP GET  | URL https://example.com'' =
     Inr \<lparr>request_method = Some ''GET'', url = Some ''https://example.com'',
          headers = JObject [], query = JObject [], body = JObject []\<rparr> \<and>
   parseReqline JSON_parse ''HTTP GET |  URL https://example.com'' =
     Inr \<lparr>request_method = Some ''GET'', url = Some ''https://example.com'',
          headers = JObject [], query = JObject [], body = JObject []\<rparr>"
  using parseReqline_sections [OF split_two_before loop_GET_example order_GET_example]
    parseReqline_sections [OF split_two_after loop_GET_example order_GET_example]
  by (simp add: sections_GET_example)

subsection \<open>C3\<close>

text \<open>
  Claim C3. \<open>parseReqline\<close> applied to \<open>HTTP GET | URL https://a.com/x | QUERY {"k":1}\<close> succeeds
  and returns the record with method \<open>GET\<close>, url \<open>https://a.com/x\<close>, headers the empty object,
  query \<open>{k:1}\<close> and body the empty object, for every engine whose \<open>JSON.parse\<close> decodes the
  text \<open>{"k":1}\<close> to the object \<open>{k:1}\<close>.
\<close>

theorem roundtrip_example:
  assumes "JSON_parse ''{\"k\":1}'' = Inr (JObject [(''k'', JNumber 1)])"
  shows "parseReqline JSON_parse ''HTTP GET | URL https://a.com/x | QUERY {\"k\":1}'' =
           Inr \<lparr>request_method = Some ''GET'', url = Some ''https://a.com/x'',
                headers = JObject [], query = JObject [(''k'', JNumber 1)],
                body = JObject []\<rparr>"
  using parseReqline_sections [OF split_roundtrip loop_roundtrip order_roundtrip, of JSON_parse]
    assms
  by (simp add: sections_def optional_section_def parseJsonSection_def)

theorem roundtrip_example_witness:
  "JSON_parse_sample ''{\"k\":1}'' = Inr (JObject [(''k'', JNumber 1)]) \<and>
   parseReqline JSON_parse_sample ''HTTP GET | URL https://a.com/x | QUERY {\"k\":1}'' =
           Inr \<lparr>request_method = Some ''GET'', url = Some ''https://a.com/x'',
                headers = JObject [], query = JObject [(''k'', JNumber 1)],
                body = JObject []\<rparr>"
proof -
  have h: "JSON_parse_sample ''{\"k\":1}'' = Inr (JObject [(''k'', JNumber 1)])"
    by (simp add: JSON_parse_sample_def)
  from h roundtrip_example [of JSON_parse_sample, OF h] show ?thesis by simp
qed

subsection \<open>C4\<close>

text \<open>
  Claim C4. Whenever \<open>parseReqline\<close> succeeds, the fields \<open>headers\<close>, \<open>query\<close> and \<open>body\<close> of the
  record are JSON objects (not null, not an array, not a primitive; a record always has the three
  fields), and each is the empty object when its section is omitted from the statement.
\<close>

theorem sections_are_objects:
  assumes "parseReqline JSON_parse reqline = Inr r"
  shows "is_object (headers r) \<and> is_object (query r) \<and> is_object (body r) \<and>
         (section_omitted ''HEADERS'' reqline \<longrightarrow> headers r = JObject []) \<and>
         (section_omitted ''QUERY'' reqline \<longrightarrow> query r = JObject []) \<and>
         (section_omitted ''BODY'' reqline \<longrightarrow> body r = JObject [])"
proof -
  from parseReqline_Inr [OF assms] obtain segments ps where
    sp: "splitByPipe reqline = Inr segments" and
    l: "parseReqline_loop segments 0 Map.empty = Inr ps" and
    s: "sections JSON_parse ps = Inr r" by blast
  from splitByPipe_Inr [OF sp] have t: "\<forall>s\<in>set segments. trimmed s" by simp
  then have img: "(\<lambda>s. firstWord (trim s)) ` set segments = set (map firstWord segments)"
    by (auto simp: trim_trimmed image_iff)
  have om: "ps sectionName = None" if "section_omitted sectionName reqline" for sectionName
  proof -
    from that sp have "sectionName \<notin> set (map firstWord segments)"
      by (simp add: section_omitted_def)
    with img parseReqline_loop_Inr [OF l] have "ps sectionName = Map.empty sectionName" by metis
    then show ?thesis by simp
  qed
  note o = sections_Inr [OF s]
  from o have h: "optional_section JSON_parse ps ''HEADERS'' = Inr (headers r)" by simp
  from o have q: "optional_section JSON_parse ps ''QUERY'' = Inr (query r)" by simp
  from o have b: "optional_section JSON_parse ps ''BODY'' = Inr (body r)" by simp
  from optional_section_Inr [OF h] optional_section_Inr [OF q] optional_section_Inr [OF b]
    om [of "''HEADERS''"] om [of "''QUERY''"] om [of "''BODY''"]
  show ?thesis by auto
qed

theorem sections_are_objects_witness:
  "parseReqline JSON_parse_sample ''HTTP GET | URL https://a.com/x | QUERY {\"k\":1}'' =
     Inr \<lparr>request_method = Some ''GET'', url = Some ''https://a.com/x'',
          headers = JObject [], query = JObject [(''k'', JNumber 1)], body = JObject []\<rparr> \<and>
   section_omitted ''HEADERS'' ''HTTP GET | URL https://a.com/x | QUERY {\"k\":1}'' \<and>
   section_omitted ''BODY'' ''HTTP GET | URL https://a.com/x | QUERY {\"k\":1}'' \<and>
   is_object (JObject [(''k'', JNumber 1)]) \<and> is_object (JObject [])"
  using sections_are_objects [OF parse_roundtrip_sample] parse_roundtrip_sample omitted_roundtrip
  by simp

subsection \<open>C5\<close>

text \<open>
  Claim C5, as stated: for every optional section whose text fails to decode or decodes to an
  array, a primitive or null, \<open>parseReqline\<close> fails with the error that names this section.
  It is false when two sections are in that case: the sections are decoded in the fixed order
  \<open>HEADERS\<close>, \<open>QUERY\<close>, \<open>BODY\<close>, and the failure names the first of them, not the other.
\<close>

theorem invalid_json_names_one_section:
  "splitByPipe ''HTTP GET | URL https://a.com | QUERY [] | HEADERS []'' =
     Inr [''HTTP GET'', ''URL https://a.com'', ''QUERY []'', ''HEADERS []''] \<and>
   parseSegment ''QUERY []'' 2 = Inr (''QUERY'', ''[]'') \<and>
   JSON_parse_sample ''[]'' = Inr (JArray []) \<and> bad_json JSON_parse_sample ''[]'' \<and>
   parseReqline JSON_parse_sample ''HTTP GET | URL https://a.com | QUERY [] | HEADERS []'' =
     Inl (Invalid_JSON ''HEADERS'') \<and>
   parseReqline JSON_parse_sample ''HTTP GET | URL https://a.com | QUERY [] | HEADERS []'' \<noteq>
     Inl (Invalid_JSON ''QUERY'')"
  by (simp add: split_two_arrays seg_QUERY_array sample_array bad_sample_array parse_two_arrays)

text \<open>
  Claim C5, amended. Take a statement that passes the scan, the classification, the duplicate
  check and the order check, and the first optional section, in the order \<open>HEADERS\<close>, \<open>QUERY\<close>,
  \<open>BODY\<close>, whose text fails to decode or decodes to an array, a primitive or null: then
  \<open>parseReqline\<close> fails with \<open>Invalid JSON format in <SECTION> section\<close> for that section,
  provided the message of the engine's syntax error does not itself include \<open>JSON format\<close>.
  Conversely \<open>parseReqline\<close> fails with that error only for an optional section of the statement
  whose text fails to decode or decodes to something that is not an object.
\<close>

theorem invalid_json_first_bad_section:
  "(\<forall>segments segment text.
      splitByPipe reqline = Inr segments \<and>
      (\<forall>s\<in>set segments. classifiable s) \<and> distinct (map firstWord segments) \<and>
      firstWord (segments ! 0) = ''HTTP'' \<and> firstWord (segments ! 1) = ''URL'' \<and>
      sectionName \<in> set OPTIONAL_KEYWORDS \<and> segment \<in> set segments \<and>
      parseSegment segment 0 = Inr (sectionName, text) \<and> bad_json JSON_parse text \<and>
      (\<forall>m. JSON_parse text = Inl m \<longrightarrow> \<not> str_includes m ''JSON format'') \<and>
      (\<forall>name\<in>set (takeWhile (\<lambda>n. n \<noteq> sectionName) OPTIONAL_KEYWORDS).
         \<forall>s\<in>set segments. \<forall>t. parseSegment s 0 = Inr (name, t) \<longrightarrow> \<not> bad_json JSON_parse t)
      \<longrightarrow> parseReqline JSON_parse reqline = Inl (Invalid_JSON sectionName)) \<and>
   (parseReqline JSON_parse reqline = Inl (Invalid_JSON sectionName) \<longrightarrow>
      sectionName \<in> set OPTIONAL_KEYWORDS \<and>
      (\<exists>segments segment text. splitByPipe reqline = Inr segments \<and> segment \<in> set segments \<and>
         parseSegment segment 0 = Inr (sectionName, text) \<and> bad_json JSON_parse text))"
  using invalid_json_sufficient invalid_json_necessary by blast

theorem invalid_json_first_bad_section_witness:
  "splitByPipe ''HTTP GET | URL https://a.com | QUERY []'' =
     Inr [''HTTP GET'', ''URL https://a.com'', ''QUERY []''] \<and>
   classifiable ''HTTP GET'' \<and> classifiable ''URL https://a.com'' \<and>
   classifiable ''QUERY []'' \<and>
   distinct (map firstWord [''HTTP GET'', ''URL https://a.com'', ''QUERY []'']) \<and>
   ''QUERY'' \<in> set OPTIONAL_KEYWORDS \<and>
   parseSegment ''QUERY []'' 0 = Inr (''QUERY'', ''[]'') \<and>
   JSON_parse_sample ''[]'' = Inr (JArray []) \<and> bad_json JSON_parse_sample ''[]'' \<and>
   parseReqline JSON_parse_sample ''HTTP GET | URL https://a.com | QUERY []'' =
     Inl (Invalid_JSON ''QUERY'')"
proof -
  let ?segs = "[''HTTP GET'', ''URL https://a.com'', ''QUERY []'']"
  have cl: "\<forall>s\<in>set ?segs. classifiable s"
    by (simp add: classifiable_def seg_HTTP_GET seg_URL_a_com seg_QUERY_array)
  have di: "distinct (map firstWord ?segs)" by (simp add: firstWord_def)
  have h: "firstWord (?segs ! 0) = ''HTTP''" by (simp add: firstWord_def)
  have u: "firstWord (?segs ! 1) = ''URL''" by (simp add: firstWord_def)
  have n: "''QUERY'' \<in> set OPTIONAL_KEYWORDS" by (simp add: OPTIONAL_KEYWORDS_def)
  have s: "''QUERY []'' \<in> set ?segs" by simp
  have m: "\<forall>m. JSON_parse_sample ''[]'' = Inl m \<longrightarrow> \<not> str_includes m ''JSON format''"
    by (simp add: sample_array)
  have g: "\<forall>name\<in>set (takeWhile (\<lambda>n. n \<noteq> ''QUERY'') OPTIONAL_KEYWORDS).
      \<forall>s\<in>set ?segs. \<forall>t. parseSegment s 0 = Inr (name, t) \<longrightarrow> \<not> bad_json JSON_parse_sample t"
    by (simp add: OPTIONAL_KEYWORDS_def seg_HTTP_GET seg_URL_a_com seg_QUERY_array)
  from invalid_json_first_bad_section
    [of "''HTTP GET | URL https://a.com | QUERY []''" "''QUERY''" JSON_parse_sample]
    split_one_array cl di h u n s seg_QUERY_array [of 0] bad_sample_array m g
  have "parseReqline JSON_parse_sample ''HTTP GET | URL https://a.com | QUERY []'' =
     Inl (Invalid_JSON ''QUERY'')" by blast
  moreover have "classifiable ''HTTP GET'' \<and> classifiable ''URL https://a.com'' \<and>
      classifiable ''QUERY []''"
    using cl by simp
  ultimately show ?thesis
    using split_one_array di n seg_QUERY_array [of 0] bad_sample_array sample_array by blast
qed

subsection \<open>C6\<close>

text \<open>
  Claim C6, as stated: a statement in which exactly one of \<open>HTTP\<close>, \<open>URL\<close> is absent fails with
  the missing error that names the keyword, and one in which both are absent fails with the
  generic error; in particular \<open>HTTP GET\<close> fails with the missing error of \<open>URL\<close>. It is
  false: \<open>HTTP GET\<close> has one segment and fails with the generic error
  \<open>Missing required HTTP and URL sections\<close> (as the repository's test
  \<open>should throw error for missing URL keyword\<close> expects), and a statement of two sections
  with neither keyword fails with \<open>HTTP keyword must be first\<close>.
\<close>

theorem HTTP_GET_alone_fails_generic:
  "parseReqline JSON_parse_sample ''HTTP GET'' = Inl Missing_sections \<and>
   parseReqline JSON_parse_sample ''HTTP GET'' \<noteq> Inl (Missing_keyword ''URL'') \<and>
   ''HTTP'' \<notin> set (map firstWord [''HEADERS {}'', ''QUERY {}'']) \<and>
   ''URL'' \<notin> set (map firstWord [''HEADERS {}'', ''QUERY {}'']) \<and>
   parseReqline JSON_parse_sample ''HEADERS {} | QUERY {}'' = Inl HTTP_first \<and>
   parseReqline JSON_parse_sample ''HEADERS {} | QUERY {}'' \<noteq> Inl Missing_sections"
  by (simp add: parse_HTTP_GET_alone parse_no_required firstWord_examples)

text \<open>
  Claim C6, amended. A statement without a pipe that starts with the keyword \<open>HTTP\<close>, such as
  \<open>HTTP GET\<close>, fails with the generic error \<open>Missing required HTTP and URL sections\<close>. For a
  statement of at least two segments, all classifiable and with no keyword twice: when \<open>HTTP\<close>
  is absent (with \<open>URL\<close> present or not) it fails with \<open>HTTP keyword must be first\<close>, and when
  \<open>HTTP\<close> is the first keyword and \<open>URL\<close> is absent it fails with
  \<open>Missing required URL keyword\<close>.
\<close>

theorem missing_required_keywords:
  "(trim reqline \<noteq> [] \<and> CHR ''|'' \<notin> set reqline \<and> firstWord (trim reqline) = ''HTTP'' \<longrightarrow>
      parseReqline JSON_parse reqline = Inl Missing_sections) \<and>
   (\<forall>segments. splitByPipe reqline = Inr segments \<and>
      (\<forall>segment\<in>set segments. classifiable segment) \<and> distinct (map firstWord segments) \<longrightarrow>
      (''HTTP'' \<notin> set (map firstWord segments) \<longrightarrow>
         parseReqline JSON_parse reqline = Inl HTTP_first) \<and>
      (firstWord (segments ! 0) = ''HTTP'' \<and> ''URL'' \<notin> set (map firstWord segments) \<longrightarrow>
         parseReqline JSON_parse reqline = Inl (Missing_keyword ''URL'')))"
proof (rule conjI; intro allI impI)
  assume a: "trim reqline \<noteq> [] \<and> CHR ''|'' \<notin> set reqline \<and> firstWord (trim reqline) = ''HTTP''"
  then have "splitByPipe reqline = Inl Missing_sections" by (simp add: splitByPipe_no_pipe)
  with a show "parseReqline JSON_parse reqline = Inl Missing_sections"
    by (simp add: parseReqline_scan_failed)
next
  fix segments
  assume a: "splitByPipe reqline = Inr segments \<and>
      (\<forall>segment\<in>set segments. classifiable segment) \<and> distinct (map firstWord segments)"
  then have sp: "splitByPipe reqline = Inr segments"
    and cl: "\<forall>segment\<in>set segments. classifiable segment"
    and di: "distinct (map firstWord segments)" by auto
  from classification_passes [OF sp cl di] obtain ps where
    l: "parseReqline_loop segments 0 Map.empty = Inr ps" by blast
  from splitByPipe_Inr [OF sp] have n: "2 \<le> length segments"
    and t: "\<forall>s\<in>set segments. trimmed s" by auto
  have m0: "segments ! 0 \<in> set segments" by (rule nth_mem) (use n in linarith)
  have m1: "segments ! 1 \<in> set segments" by (rule nth_mem) (use n in linarith)
  have 1: "parseReqline JSON_parse reqline = Inl HTTP_first"
    if "''HTTP'' \<notin> set (map firstWord segments)"
  proof -
    from that m0 have "firstWord (segments ! 0) \<noteq> ''HTTP''" by (metis image_eqI set_map)
    from validateKeywordOrder_not_first [OF n this] parseReqline_order_failed [OF sp l]
    show ?thesis by simp
  qed
  have 2: "parseReqline JSON_parse reqline = Inl (Missing_keyword ''URL'')"
    if "firstWord (segments ! 0) = ''HTTP'' \<and> ''URL'' \<notin> set (map firstWord segments)"
  proof -
    from that m1 have u: "firstWord (segments ! 1) \<noteq> ''URL''" by (metis image_eqI set_map)
    from classifiable_keyword [of "segments ! 1"] cl m1 t
    have "firstWord (segments ! 1) \<in> set ALL_KEYWORDS" by (simp add: trim_trimmed)
    with that u n have "validateKeywordOrder segments = Inl (Missing_keyword ''URL'')"
      by (simp add: validateKeywordOrder_def)
    from parseReqline_order_failed [OF sp l this] show ?thesis .
  qed
  from 1 2 show "(''HTTP'' \<notin> set (map firstWord segments) \<longrightarrow>
         parseReqline JSON_parse reqline = Inl HTTP_first) \<and>
      (firstWord (segments ! 0) = ''HTTP'' \<and> ''URL'' \<notin> set (map firstWord segments) \<longrightarrow>
         parseReqline JSON_parse reqline = Inl (Missing_keyword ''URL''))" by blast
qed

theorem missing_required_keywords_witness:
  "trim ''HTTP GET'' \<noteq> [] \<and> CHR ''|'' \<notin> set ''HTTP GET'' \<and> firstWord (trim ''HTTP GET'') = ''HTTP'' \<and>
   parseReqline JSON_parse_sample ''HTTP GET'' = Inl Missing_sections \<and>
   splitByPipe ''HTTP GET | HEADERS {}'' = Inr [''HTTP GET'', ''HEADERS {}''] \<and>
   classifiable ''HTTP GET'' \<and> classifiable ''HEADERS {}'' \<and>
   distinct (map firstWord [''HTTP GET'', ''HEADERS {}'']) \<and>
   firstWord ([''HTTP GET'', ''HEADERS {}''] ! 0) = ''HTTP'' \<and>
   ''URL'' \<notin> set (map firstWord [''HTTP GET'', ''HEADERS {}'']) \<and>
   parseReqline JSON_parse_sample ''HTTP GET | HEADERS {}'' = Inl (Missing_keyword ''URL'')"
proof -
  have a: "trim ''HTTP GET'' \<noteq> [] \<and> CHR ''|'' \<notin> set ''HTTP GET'' \<and>
           firstWord (trim ''HTTP GET'') = ''HTTP''"
    by code_simp
  have b: "(\<forall>segment\<in>set [''HTTP GET'', ''HEADERS {}'']. classifiable segment) \<and>
   distinct (map firstWord [''HTTP GET'', ''HEADERS {}'']) \<and>
   firstWord ([''HTTP GET'', ''HEADERS {}''] ! 0) = ''HTTP'' \<and>
   ''URL'' \<notin> set (map firstWord [''HTTP GET'', ''HEADERS {}''])"
    by (simp add: classifiable_examples firstWord_examples)
  from missing_required_keywords [of "''HTTP GET''" JSON_parse_sample] a
  have 1: "parseReqline JSON_parse_sample ''HTTP GET'' = Inl Missing_sections" by blast
  from missing_required_keywords [of "''HTTP GET | HEADERS {}''" JSON_parse_sample]
    split_HEADERS_second b
  have 2: "parseReqline JSON_parse_sample ''HTTP GET | HEADERS {}'' = Inl (Missing_keyword ''URL'')"
    by blast
  from a b 1 2 split_HEADERS_second classifiable_examples show ?thesis by blast
qed

subsection \<open>C7\<close>

text \<open>
  Claim C7, as stated: a segment whose value begins with an additional space fails with the
  multiple-spaces error whatever the spelling or casing of its keyword, this check coming
  before the checks of the keyword. It is false: the keyword is checked first, and
  \<open>http\<close> followed by two spaces fails with the casing error.
\<close>

theorem keyword_checked_before_spaces:
  "firstSpace (trim ''http  GET'') = Some 4 \<and>
   startsWith (drop (4 + 1) (trim ''http  GET'')) '' '' \<and>
   parseSegment ''http  GET'' 0 = Inl Keywords_uppercase \<and>
   parseSegment ''http  GET'' 0 \<noteq> Inl Multiple_spaces"
  by code_simp

text \<open>
  Claim C7, amended: a segment whose keyword is one of the five recognized keywords and whose
  value begins with an additional space fails with the multiple-spaces error, which is not the
  missing-space error. The legality and the casing of the keyword are checked before: with a
  keyword that is not recognized, the same segment fails with the casing error or with the
  unrecognized-keyword error.
\<close>

theorem multiple_spaces_after_recognized_keyword:
  "(keyword \<in> set ALL_KEYWORDS \<and> trim segment = keyword @ ''  '' @ rest \<longrightarrow>
      parseSegment segment i = Inl Multiple_spaces) \<and>
   (keyword \<notin> set ALL_KEYWORDS \<and> CHR '' '' \<notin> set keyword \<and>
    trim segment = keyword @ ''  '' @ rest \<longrightarrow>
      parseSegment segment i = Inl Keywords_uppercase \<or>
      parseSegment segment i = Inl (Invalid_keyword keyword)) \<and>
   Multiple_spaces \<noteq> Missing_space"
proof (intro conjI impI)
  assume a: "keyword \<in> set ALL_KEYWORDS \<and> trim segment = keyword @ ''  '' @ rest"
  then have t: "trim segment = keyword @ CHR '' '' # CHR '' '' # rest" by simp
  from a keyword_no_space have "CHR '' '' \<notin> set keyword" by blast
  from firstSpace_append [OF this]
  have fs: "firstSpace (trim segment) = Some (length keyword)" by (simp add: t)
  from a t fs show "parseSegment segment i = Inl Multiple_spaces"
    by (simp add: parseSegment_def startsWith_def)
next
  assume a: "keyword \<notin> set ALL_KEYWORDS \<and> CHR '' '' \<notin> set keyword \<and>
    trim segment = keyword @ ''  '' @ rest"
  then have t: "trim segment = keyword @ CHR '' '' # CHR '' '' # rest" by simp
  from a firstSpace_append have fs: "firstSpace (trim segment) = Some (length keyword)"
    by (simp add: t)
  from a t fs show "parseSegment segment i = Inl Keywords_uppercase \<or>
      parseSegment segment i = Inl (Invalid_keyword keyword)"
    by (simp add: parseSegment_def)
next
  show "Multiple_spaces \<noteq> Missing_space" by simp
qed

theorem multiple_spaces_after_recognized_keyword_witness:
  "''URL'' \<in> set ALL_KEYWORDS \<and> trim ''URL  https://example.com'' = ''URL'' @ ''  '' @ ''https://example.com'' \<and>
   parseSegment ''URL  https://example.com'' 0 = Inl Multiple_spaces \<and>
   ''http'' \<notin> set ALL_KEYWORDS \<and> CHR '' '' \<notin> set ''http'' \<and>
   trim ''http  GET'' = ''http'' @ ''  '' @ ''GET'' \<and>
   (parseSegment ''http  GET'' 0 = Inl Keywords_uppercase \<or>
    parseSegment ''http  GET'' 0 = Inl (Invalid_keyword ''http''))"
proof -
  have a: "''URL'' \<in> set ALL_KEYWORDS \<and>
           trim ''URL  https://example.com'' = ''URL'' @ ''  '' @ ''https://example.com''"
    by code_simp
  have b: "''http'' \<notin> set ALL_KEYWORDS \<and> CHR '' '' \<notin> set ''http'' \<and>
           trim ''http  GET'' = ''http'' @ ''  '' @ ''GET''"
    by code_simp
  from multiple_spaces_after_recognized_keyword
    [of "''URL''" "''URL  https://example.com''" "''https://example.com''" 0] a
  have 1: "parseSegment ''URL  https://example.com'' 0 = Inl Multiple_spaces" by blast
  from multiple_spaces_after_recognized_keyword [of "''http''" "''http  GET''" "''GET''" 0] b
  have 2: "parseSegment ''http  GET'' 0 = Inl Keywords_uppercase \<or>
    parseSegment ''http  GET'' 0 = Inl (Invalid_keyword ''http'')" by blast
  from a b 1 2 show ?thesis by blast
qed

subsection \<open>C8\<close>




subsection \<open>C9\<close>




subsection \<open>C10\<close>

text \<open>
  Claim C10, as stated: \<open>parseReqline\<close> never throws \<open>URL keyword must be second\<close>, since for
  every input whose second segment has a keyword that is not recognized, the classification has
  already failed with the error of the unrecognized keyword, of the keyword casing or of the
  missing space. The reason given is false for two statements: with an empty second segment
  the failure is \<open>Empty segment found\<close>, and with a first segment that is itself rejected the
  failure is the one of that segment, here \<open>Invalid HTTP method\<close>.
\<close>

theorem second_keyword_failure_not_in_list:
  "splitByPipe ''HTTP GET | | URL https://a.com'' = Inr [''HTTP GET'', [], ''URL https://a.com''] \<and>
   firstWord ([''HTTP GET'', [], ''URL https://a.com''] ! 1) \<notin> set ALL_KEYWORDS \<and>
   parseReqline JSON_parse_sample ''HTTP GET | | URL https://a.com'' = Inl Empty_segment \<and>
   Empty_segment \<notin> {Invalid_keyword (firstWord ([''HTTP GET'', [], ''URL https://a.com''] ! 1)),
                      Keywords_uppercase, Missing_space} \<and>
   splitByPipe ''HTTP PUT | FOO x'' = Inr [''HTTP PUT'', ''FOO x''] \<and>
   firstWord ([''HTTP PUT'', ''FOO x''] ! 1) \<notin> set ALL_KEYWORDS \<and>
   parseReqline JSON_parse_sample ''HTTP PUT | FOO x'' = Inl Invalid_method \<and>
   Invalid_method \<notin> {Invalid_keyword (firstWord ([''HTTP PUT'', ''FOO x''] ! 1)),
                       Keywords_uppercase, Missing_space}"
  by (simp add: split_empty_second split_PUT_FOO parse_empty_second parse_PUT_FOO
        unrecognized_examples set_ALL_KEYWORDS)

text \<open>
  Claim C10, amended. \<open>parseReqline\<close> never throws the error \<open>URL keyword must be second\<close>: no
  failure of \<open>parseReqline\<close> is that error or carries its message. When the keyword of the
  second segment is not a recognized keyword, the loop over the segments has failed before
  \<open>validateKeywordOrder\<close> runs, and \<open>parseReqline\<close> fails with the error of the loop: this is
  the error of the first segment, or at the second segment the error of the empty segment, of
  the unrecognized keyword, of the keyword casing or of the missing space; once the first
  segment is classified and the second segment is not empty, it is one of the last three. So
  the wrong-order branch is unreachable.
\<close>

theorem URL_second_never_thrown:
  "(\<forall>e. parseReqline JSON_parse reqline = Inl e \<longrightarrow>
        e \<noteq> URL_second \<and> message e \<noteq> ''URL keyword must be second'') \<and>
   (\<forall>segments. splitByPipe reqline = Inr segments \<and>
        firstWord (segments ! 1) \<notin> set ALL_KEYWORDS \<longrightarrow>
        (\<exists>e. parseReqline_loop segments 0 Map.empty = Inl e \<and>
             parseReqline JSON_parse reqline = Inl e \<and>
             (parseSegment (segments ! 0) 0 = Inl e \<or>
              e \<in> {Empty_segment, Invalid_keyword (firstWord (segments ! 1)),
                    Keywords_uppercase, Missing_space}) \<and>
             (classifiable (segments ! 0) \<and> segments ! 1 \<noteq> [] \<longrightarrow>
                e \<in> {Invalid_keyword (firstWord (segments ! 1)), Keywords_uppercase,
                      Missing_space})))"
proof (rule conjI; intro allI impI)
  fix e
  assume "parseReqline JSON_parse reqline = Inl e"
  from parseReqline_Inl_message [OF this]
  show "e \<noteq> URL_second \<and> message e \<noteq> ''URL keyword must be second''" by auto
next
  fix segments
  assume a: "splitByPipe reqline = Inr segments \<and> firstWord (segments ! 1) \<notin> set ALL_KEYWORDS"
  then have sp: "splitByPipe reqline = Inr segments"
    and u: "firstWord (segments ! 1) \<notin> set ALL_KEYWORDS" by auto
  from splitByPipe_Inr [OF sp] have t: "\<forall>s\<in>set segments. trimmed s" and n: "2 \<le> length segments"
    by auto
  then obtain s0 s1 rest where segs: "segments = s0 # s1 # rest"
    by (cases segments; cases "tl segments") auto
  from t segs have t1: "trim s1 = s1" by (simp add: trim_trimmed)
  from u segs t1 have u1: "firstWord (trim s1) \<notin> set ALL_KEYWORDS" by simp
  have n1: "\<exists>e. parseSegment s1 (Suc 0) = Inl e"
  proof (cases "parseSegment s1 (Suc 0)")
    case (Inl e)
    then show ?thesis by simp
  next
    case (Inr kv)
    then have "parseSegment s1 (Suc 0) = Inr (fst kv, snd kv)" by simp
    from parseSegment_Inr [OF this] u1 show ?thesis by metis
  qed
  then obtain e1 where e1: "parseSegment s1 (Suc 0) = Inl e1" by blast
  show "\<exists>e. parseReqline_loop segments 0 Map.empty = Inl e \<and>
             parseReqline JSON_parse reqline = Inl e \<and>
             (parseSegment (segments ! 0) 0 = Inl e \<or>
              e \<in> {Empty_segment, Invalid_keyword (firstWord (segments ! 1)),
                    Keywords_uppercase, Missing_space}) \<and>
             (classifiable (segments ! 0) \<and> segments ! 1 \<noteq> [] \<longrightarrow>
                e \<in> {Invalid_keyword (firstWord (segments ! 1)), Keywords_uppercase,
                      Missing_space})"
  proof (cases "parseSegment s0 0")
    case (Inl e0)
    with segs have l: "parseReqline_loop segments 0 Map.empty = Inl e0" by simp
    from Inl segs have f: "parseSegment (segments ! 0) 0 = Inl e0" by simp
    from Inl segs have "\<not> classifiable (segments ! 0)" by (simp add: classifiable_def)
    with l f parseReqline_loop_failed [OF sp l] show ?thesis by blast
  next
    case (Inr kv)
    with segs e1 have l: "parseReqline_loop segments 0 Map.empty = Inl e1"
      by (simp add: truthy_text_def split: prod.splits)
    from parseSegment_Inl_unrecognized [OF e1 u1] segs t1
    have 4: "e1 \<in> {Empty_segment, Missing_space, Keywords_uppercase,
                 Invalid_keyword (firstWord (segments ! 1))}" by simp
    then have l4: "e1 \<in> {Empty_segment, Invalid_keyword (firstWord (segments ! 1)),
                    Keywords_uppercase, Missing_space}" by auto
    have "e1 \<noteq> Empty_segment" if "segments ! 1 \<noteq> []"
    proof
      assume "e1 = Empty_segment"
      with e1 parseSegment_Empty have "trim s1 = []" by blast
      with t1 segs that show False by simp
    qed
    with 4 have "segments ! 1 \<noteq> [] \<longrightarrow>
        e1 \<in> {Invalid_keyword (firstWord (segments ! 1)), Keywords_uppercase, Missing_space}"
      by auto
    with l4 l parseReqline_loop_failed [OF sp l] show ?thesis by blast
  qed
qed

theorem URL_second_never_thrown_witness:
  "splitByPipe ''HTTP GET | INVALID x'' = Inr [''HTTP GET'', ''INVALID x''] \<and>
   firstWord ([''HTTP GET'', ''INVALID x''] ! 1) \<notin> set ALL_KEYWORDS \<and>
   classifiable ([''HTTP GET'', ''INVALID x''] ! 0) \<and> [''HTTP GET'', ''INVALID x''] ! 1 \<noteq> [] \<and>
   parseReqline JSON_parse_sample ''HTTP GET | INVALID x'' = Inl (Invalid_keyword ''INVALID'') \<and>
   message (Invalid_keyword ''INVALID'') \<noteq> ''URL keyword must be second''"
proof -
  have c: "classifiable ([''HTTP GET'', ''INVALID x''] ! 0)"
    by (simp add: classifiable_def seg_HTTP_GET)
  have u: "firstWord ([''HTTP GET'', ''INVALID x''] ! 1) \<notin> set ALL_KEYWORDS"
    by (simp add: firstWord_INVALID INVALID_unrecognized)
  have l: "parseReqline_loop [''HTTP GET'', ''INVALID x''] 0 Map.empty = Inl (Invalid_keyword ''INVALID'')"
    by (simp add: seg_HTTP_GET seg_INVALID truthy_text_def)
  from URL_second_never_thrown [of JSON_parse_sample "''HTTP GET | INVALID x''"]
    split_invalid_second u l c
  show ?thesis by auto
qed

end
